theory Spec2Isabelle
  imports Main "HOL-Library.Char_ord" "HOL-Library.List_Lexorder" "HOL-Library.Multiset"
begin

section \<open>Strings as Python sees them\<close>

text \<open>
  A Python \<open>str\<close> is modelled as a \<open>string\<close>: one \<open>char\<close> per character of the text
  (code points below 256).  The document text is the text as \<open>open(..., 'r')\<close> delivers it,
  that is, decoded and with line ends already translated to the newline character.
\<close>

definition newline :: char where
  "newline = CHR 0x0A"

text \<open>\<open>str.isspace\<close> on one character, which is also the class \<open>\s\<close> of \<open>re\<close> for
  \<open>str\<close> patterns: tab, newline, vertical tab, form feed, carriage return, the four
  separators 0x1C..0x1F, space, and in the Latin-1 range NEL and the no-break space.\<close>

definition isspace :: "char \<Rightarrow> bool" where
  "isspace c \<longleftrightarrow> c \<in> set [CHR 0x09, CHR 0x0A, CHR 0x0B, CHR 0x0C, CHR 0x0D,
      CHR 0x1C, CHR 0x1D, CHR 0x1E, CHR 0x1F, CHR 0x20, CHR 0x85, CHR 0xA0]"

text \<open>\<open>str.strip()\<close>.\<close>

definition lstrip :: "string \<Rightarrow> string" where
  "lstrip s = dropWhile isspace s"

definition rstrip :: "string \<Rightarrow> string" where
  "rstrip s = rev (dropWhile isspace (rev s))"

definition strip :: "string \<Rightarrow> string" where
  "strip s = rstrip (lstrip s)"

text \<open>\<open>str.startswith\<close> and \<open>str.endswith\<close>.\<close>

definition startswith :: "string \<Rightarrow> string \<Rightarrow> bool" where
  "startswith s p \<longleftrightarrow> take (length p) s = p"

definition endswith :: "string \<Rightarrow> string \<Rightarrow> bool" where
  "endswith s p \<longleftrightarrow> startswith (rev s) (rev p)"

text \<open>\<open>str.split('\n')\<close>: the pieces between newline characters; never an empty list.\<close>

fun split_nl :: "string \<Rightarrow> string list" where
  "split_nl [] = [[]]"
| "split_nl (c # cs) =
     (if c = newline then [] # split_nl cs
      else (case split_nl cs of [] \<Rightarrow> [[c]] | l # ls \<Rightarrow> (c # l) # ls))"

text \<open>\<open>str.split()\<close> with no argument: the maximal runs of non-whitespace characters.\<close>

fun split_ws :: "string \<Rightarrow> string list" where
  "split_ws [] = []"
| "split_ws (c # cs) =
     (if isspace c then split_ws cs
      else (case cs of
              [] \<Rightarrow> [[c]]
            | d # _ \<Rightarrow>
                if isspace d then [c] # split_ws cs
                else (case split_ws cs of [] \<Rightarrow> [[c]] | w # ws \<Rightarrow> (c # w) # ws)))"

text \<open>Case mapping, on the ASCII letters; every other character is left as it is.\<close>

definition lower :: "char \<Rightarrow> char" where
  "lower c = (case map_of (zip ''ABCDEFGHIJKLMNOPQRSTUVWXYZ'' ''abcdefghijklmnopqrstuvwxyz'') c of
                Some l \<Rightarrow> l | None \<Rightarrow> c)"

definition upper :: "char \<Rightarrow> char" where
  "upper c = (case map_of (zip ''abcdefghijklmnopqrstuvwxyz'' ''ABCDEFGHIJKLMNOPQRSTUVWXYZ'') c of
                Some u \<Rightarrow> u | None \<Rightarrow> c)"

text \<open>\<open>str.capitalize()\<close>: first character upper case, the rest lower case.\<close>

fun capitalize :: "string \<Rightarrow> string" where
  "capitalize [] = []"
| "capitalize (c # cs) = upper c # map lower cs"

text \<open>\<open>sep.join(words)\<close>.\<close>

fun join :: "string \<Rightarrow> string list \<Rightarrow> string" where
  "join sep [] = []"
| "join sep [w] = w"
| "join sep (w # ws) = w @ sep @ join sep ws"

section \<open>The fragment of \<open>re\<close> the program uses\<close>

text \<open>
  Every regular expression of the program is a sequence of single-character classes, each
  taken once, or under a greedy \<open>+\<close> or \<open>*\<close>, possibly closed by \<open>$\<close>.  An atom is one
  such class: a literal, a literal under \<open>re.IGNORECASE\<close>, a negated one-character class
  \<open>[^c]\<close>, a class \<open>[abc]\<close>, \<open>\s\<close>, or \<open>.\<close> (anything but a newline).
\<close>

datatype atom = Ch char | ChI char | NotCh char | In string | Space | Dot

fun atom_ok :: "atom \<Rightarrow> char \<Rightarrow> bool" where
  "atom_ok (Ch c) x \<longleftrightarrow> x = c"
| "atom_ok (ChI c) x \<longleftrightarrow> lower x = lower c"
| "atom_ok (NotCh c) x \<longleftrightarrow> x \<noteq> c"
| "atom_ok (In cs) x \<longleftrightarrow> x \<in> set cs"
| "atom_ok Space x \<longleftrightarrow> isspace x"
| "atom_ok Dot x \<longleftrightarrow> x \<noteq> newline"

datatype item = One atom | Plus atom | Star atom | Eos

type_synonym regex = "item list"

text \<open>The first alternative that succeeds, in the order the matcher tries them.\<close>

fun first_some :: "'a option list \<Rightarrow> 'a option" where
  "first_some [] = None"
| "first_some (None # xs) = first_some xs"
| "first_some (Some y # xs) = Some y"

text \<open>
  \<open>rmatch p s\<close> matches \<open>p\<close> at the start of \<open>s\<close>, as \<open>re.match\<close> does: a greedy quantifier
  first takes the longest run of its class and gives characters back one at a time
  until the rest of the pattern matches.  The result lists, for each item of the
  pattern, the text it matched; \<open>$\<close> matches at the end of the text or before a final
  newline.
\<close>

fun rmatch :: "regex \<Rightarrow> string \<Rightarrow> string list option" where
  "rmatch [] s = Some []"
| "rmatch (Eos # p) s =
     (if s = [] \<or> s = [newline] then map_option ((#) []) (rmatch p s) else None)"
| "rmatch (One a # p) s =
     (case s of
        [] \<Rightarrow> None
      | x # xs \<Rightarrow> if atom_ok a x then map_option ((#) [x]) (rmatch p xs) else None)"
| "rmatch (Plus a # p) s =
     first_some (map (\<lambda>k. map_option ((#) (take k s)) (rmatch p (drop k s)))
                     (rev [1 ..< Suc (length (takeWhile (atom_ok a) s))]))"
| "rmatch (Star a # p) s =
     first_some (map (\<lambda>k. map_option ((#) (take k s)) (rmatch p (drop k s)))
                     (rev [0 ..< Suc (length (takeWhile (atom_ok a) s))]))"

text \<open>The text of capture group: the piece matched by the item at index \<open>n\<close>.\<close>

definition grp :: "nat \<Rightarrow> string list \<Rightarrow> string" where
  "grp n pieces = (if n < length pieces then pieces ! n else [])"

text \<open>\<open>re.search\<close>: the match at the leftmost position that has one.\<close>

fun re_search :: "regex \<Rightarrow> string \<Rightarrow> string list option" where
  "re_search p [] = rmatch p []"
| "re_search p (x # xs) =
     (case rmatch p (x # xs) of Some m \<Rightarrow> Some m | None \<Rightarrow> re_search p xs)"

text \<open>
  \<open>re.sub(p, repl, s)\<close>: the leftmost match is replaced, and the scan goes on behind it.
  The counter is the number of characters of the last match still to be skipped.  Every
  pattern the program substitutes matches at least one character.
\<close>

fun re_sub_from :: "regex \<Rightarrow> (string list \<Rightarrow> string) \<Rightarrow> nat \<Rightarrow> string \<Rightarrow> string" where
  "re_sub_from p repl n [] = []"
| "re_sub_from p repl (Suc n) (x # xs) = re_sub_from p repl n xs"
| "re_sub_from p repl 0 (x # xs) =
     (case rmatch p (x # xs) of
        None \<Rightarrow> x # re_sub_from p repl 0 xs
      | Some m \<Rightarrow> repl m @ re_sub_from p repl (length (concat m) - 1) xs)"

definition re_sub :: "regex \<Rightarrow> (string list \<Rightarrow> string) \<Rightarrow> string \<Rightarrow> string" where
  "re_sub p repl s = re_sub_from p repl 0 s"

section \<open>\<open>clean_markdown_format\<close>\<close>

text \<open>The patterns of \<open>clean_markdown_format\<close>, in the order of the source.\<close>

definition link_re :: regex where
  \<comment> \<open>\<^verbatim>\<open>\[([^\]]+)\]\([^)]+\)\<close>, group 1 is item 1\<close>
  "link_re = [One (Ch CHR ''[''), Plus (NotCh CHR '']''), One (Ch CHR '']''),
              One (Ch CHR ''(''), Plus (NotCh CHR '')''), One (Ch CHR '')'')]"

definition image_re :: regex where
  \<comment> \<open>\<^verbatim>\<open>!\[[^\]]*\]\([^)]+\)\<close>\<close>
  "image_re = [One (Ch CHR ''!''), One (Ch CHR ''[''), Star (NotCh CHR '']''), One (Ch CHR '']''),
               One (Ch CHR ''(''), Plus (NotCh CHR '')''), One (Ch CHR '')'')]"

definition bold_re :: regex where
  \<comment> \<open>\<^verbatim>\<open>\*\*([^*]+)\*\*\<close>, group 1 is item 2\<close>
  "bold_re = [One (Ch CHR ''*''), One (Ch CHR ''*''), Plus (NotCh CHR ''*''),
              One (Ch CHR ''*''), One (Ch CHR ''*'')]"

definition italic_re :: regex where
  \<comment> \<open>\<^verbatim>\<open>\*([^*]+)\*\<close>, group 1 is item 1\<close>
  "italic_re = [One (Ch CHR ''*''), Plus (NotCh CHR ''*''), One (Ch CHR ''*'')]"

definition code_re :: regex where
  \<comment> \<open>\<^verbatim>\<open>`([^`]+)`\<close>, group 1 is item 1\<close>
  "code_re = [One (Ch CHR 0x60), Plus (NotCh CHR 0x60), One (Ch CHR 0x60)]"

definition strike_re :: regex where
  \<comment> \<open>\<^verbatim>\<open>~~([^~]+)~~\<close>, group 1 is item 2\<close>
  "strike_re = [One (Ch CHR ''~''), One (Ch CHR ''~''), Plus (NotCh CHR ''~''),
                One (Ch CHR ''~''), One (Ch CHR ''~'')]"

definition tag_re :: regex where
  \<comment> \<open>\<^verbatim>\<open><[^>]+>\<close>\<close>
  "tag_re = [One (Ch CHR ''<''), Plus (NotCh CHR ''>''), One (Ch CHR ''>'')]"

definition comment_re :: regex where
  \<comment> \<open>\<^verbatim>\<open><!--[^>]+-->\<close>\<close>
  "comment_re = [One (Ch CHR ''<''), One (Ch CHR ''!''), One (Ch CHR ''-''), One (Ch CHR ''-''),
                 Plus (NotCh CHR ''>''),
                 One (Ch CHR ''-''), One (Ch CHR ''-''), One (Ch CHR ''>'')]"

definition spaces_re :: regex where
  \<comment> \<open>\<^verbatim>\<open>\s+\<close>\<close>
  "spaces_re = [Plus Space]"

definition clean_markdown_format :: "string \<Rightarrow> string" where
  "clean_markdown_format text0 =
     (if text0 = [] then text0
      else
        let text1 = re_sub link_re (grp 1) text0;
            text2 = re_sub image_re (\<lambda>_. []) text1;
            text3 = re_sub bold_re (grp 2) text2;
            text4 = re_sub italic_re (grp 1) text3;
            text5 = re_sub code_re (grp 1) text4;
            text6 = re_sub strike_re (grp 2) text5;
            text7 = re_sub tag_re (\<lambda>_. []) text6;
            text8 = re_sub comment_re (\<lambda>_. []) text7
        in strip (re_sub spaces_re (\<lambda>_. '' '') text8))"

section \<open>\<open>extract_title_from_md\<close>\<close>

text \<open>The four directive patterns, searched with \<open>re.IGNORECASE\<close>, each with the index of
  the item that is its group 1.\<close>

definition toc_re1 :: regex where
  \<comment> \<open>\<^verbatim>\<open>@\[toc\]\s*\(([^)]+)\)\<close>, group 1 is item 8\<close>
  "toc_re1 = [One (Ch CHR ''@''), One (Ch CHR ''[''), One (ChI CHR ''t''), One (ChI CHR ''o''),
              One (ChI CHR ''c''), One (Ch CHR '']''), Star Space, One (Ch CHR ''(''),
              Plus (NotCh CHR '')''), One (Ch CHR '')'')]"

definition toc_re2 :: regex where
  \<comment> \<open>\<^verbatim>\<open>\[toc\]\s*\(([^)]+)\)\<close>, group 1 is item 7\<close>
  "toc_re2 = [One (Ch CHR ''[''), One (ChI CHR ''t''), One (ChI CHR ''o''),
              One (ChI CHR ''c''), One (Ch CHR '']''), Star Space, One (Ch CHR ''(''),
              Plus (NotCh CHR '')''), One (Ch CHR '')'')]"

definition toc_re3 :: regex where
  \<comment> \<open>\<^verbatim>\<open><!--toc-->\s*([^<]+)\<close>, group 1 is item 11\<close>
  "toc_re3 = [One (Ch CHR ''<''), One (Ch CHR ''!''), One (Ch CHR ''-''), One (Ch CHR ''-''),
              One (ChI CHR ''t''), One (ChI CHR ''o''), One (ChI CHR ''c''),
              One (Ch CHR ''-''), One (Ch CHR ''-''), One (Ch CHR ''>''), Star Space,
              Plus (NotCh CHR ''<'')]"

definition toc_re4 :: regex where
  \<comment> \<open>\<^verbatim>\<open><!--\s*toc\s*-->\s*([^<]+)\<close>, group 1 is item 13\<close>
  "toc_re4 = [One (Ch CHR ''<''), One (Ch CHR ''!''), One (Ch CHR ''-''), One (Ch CHR ''-''),
              Star Space, One (ChI CHR ''t''), One (ChI CHR ''o''), One (ChI CHR ''c''),
              Star Space, One (Ch CHR ''-''), One (Ch CHR ''-''), One (Ch CHR ''>''),
              Star Space, Plus (NotCh CHR ''<'')]"

definition toc_patterns :: "(regex \<times> nat) list" where
  "toc_patterns = [(toc_re1, 8), (toc_re2, 7), (toc_re3, 11), (toc_re4, 13)]"

text \<open>\<^verbatim>\<open>re.sub(r'^\(|\)$', '', title)\<close> on a title that \<open>strip()\<close> has already trimmed (so
  that \<open>$\<close> can only stand at its very end): an opening parenthesis at the start and a
  closing one at the end are removed.\<close>

definition strip_parens :: "string \<Rightarrow> string" where
  "strip_parens title =
     (let t1 = (case title of [] \<Rightarrow> [] | c # cs \<Rightarrow> if c = CHR ''('' then cs else title)
      in if t1 \<noteq> [] \<and> last t1 = CHR '')'' then butlast t1 else t1)"

text \<open>Method 1: the loop over \<open>toc_patterns\<close>.\<close>

fun toc_loop :: "(regex \<times> nat) list \<Rightarrow> string \<Rightarrow> string option" where
  "toc_loop [] content = None"
| "toc_loop ((pattern, g) # ps) content =
     (case re_search pattern content of
        None \<Rightarrow> toc_loop ps content
      | Some m \<Rightarrow>
          let title = strip_parens (strip (grp g m))
          in if title \<noteq> [] then Some title else toc_loop ps content)"

text \<open>The heading pattern of a level, \<^verbatim>\<open>^#{level}\s+(.+)$\<close>; its group 1 is the item at
  index \<open>level + 1\<close>.  Methods 2 and 3 use levels 1 and 2.\<close>

definition heading_re :: "nat \<Rightarrow> regex" where
  "heading_re level = replicate level (One (Ch CHR ''#'')) @ [Plus Space, Plus Dot, Eos]"

definition fence :: string where
  "fence = [CHR 0x60, CHR 0x60, CHR 0x60]"

text \<open>Methods 2 and 3: the first heading of the level outside code blocks whose cleaned
  text is not empty.\<close>

fun heading_loop :: "nat \<Rightarrow> bool \<Rightarrow> string list \<Rightarrow> string option" where
  "heading_loop level in_code_block [] = None"
| "heading_loop level in_code_block (line # lines) =
     (if startswith (strip line) fence then heading_loop level (\<not> in_code_block) lines
      else if \<not> in_code_block then
        (case rmatch (heading_re level) line of
           None \<Rightarrow> heading_loop level in_code_block lines
         | Some m \<Rightarrow>
             let title = clean_markdown_format (strip (grp (level + 1) m))
             in if title \<noteq> [] then Some title
                else heading_loop level in_code_block lines)
      else heading_loop level in_code_block lines)"

text \<open>Method 4: the first line outside code blocks that is not blank, not a table row,
  quote, list item or code marker, and not a comment.\<close>

fun body_loop :: "bool \<Rightarrow> string list \<Rightarrow> string option" where
  "body_loop in_code_block [] = None"
| "body_loop in_code_block (line0 # lines) =
     (let line = strip line0
      in if startswith line fence then body_loop (\<not> in_code_block) lines
         else if \<not> in_code_block \<and> line \<noteq> [] \<and>
                 \<not> (\<exists>p \<in> set [''|'', ''>'', ''-'', ''*'', ''+'', [CHR 0x60]]. startswith line p)
         then
           if startswith line ''<!--'' \<and> endswith line ''-->'' then body_loop in_code_block lines
           else
             let clean_line = clean_markdown_format line
             in if length clean_line < 150 then Some (take 100 clean_line)
                else body_loop in_code_block lines
         else body_loop in_code_block lines)"

text \<open>Method 5: the file name, made pretty.  \<open>os.path.basename\<close> and the root of
  \<open>os.path.splitext\<close> (the extension starts at the last dot, unless only dots stand
  before it).\<close>

definition basename :: "string \<Rightarrow> string" where
  "basename path = rev (takeWhile (\<lambda>c. c \<noteq> CHR ''/'') (rev path))"

definition splitext_root :: "string \<Rightarrow> string" where
  "splitext_root name =
     (if CHR ''.'' \<notin> set name then name
      else
        let dotIndex = length name - 1 - length (takeWhile (\<lambda>c. c \<noteq> CHR ''.'') (rev name))
        in if \<exists>c \<in> set (take dotIndex name). c \<noteq> CHR ''.'' then take dotIndex name else name)"

definition pretty_name :: "string \<Rightarrow> string" where
  "pretty_name filepath =
     (let filename = basename filepath;
          name_without_ext = splitext_root filename;
          spaced = re_sub [One (In ''-_.'')] (\<lambda>_. '' '') name_without_ext
      in join '' '' (map capitalize (split_ws spaced)))"

text \<open>
  The function itself.  The file is given by what reading it yields: \<open>None\<close> when
  \<open>open\<close> or \<open>read\<close> raises \<open>UnicodeDecodeError\<close> or \<open>OSError\<close>, otherwise its text, of
  which \<open>f.read(3000)\<close> takes the first 3000 characters.
\<close>

definition extract_title_from_md :: "string option \<Rightarrow> string \<Rightarrow> string" where
  "extract_title_from_md file filepath =
     (case file of
        None \<Rightarrow> pretty_name filepath
      | Some text \<Rightarrow>
          let content = take 3000 text
          in (case toc_loop toc_patterns content of
                Some title \<Rightarrow> title
              | None \<Rightarrow>
                  let lines = split_nl content
                  in (case heading_loop 1 False lines of
                        Some title \<Rightarrow> title
                      | None \<Rightarrow>
                          (case heading_loop 2 False lines of
                             Some title \<Rightarrow> title
                           | None \<Rightarrow>
                               (case body_loop False lines of
                                  Some title \<Rightarrow> title
                                | None \<Rightarrow> pretty_name filepath)))))"

section \<open>\<open>extract_all_titles\<close>\<close>

record heading =
  level :: nat
  title :: string
  line_number :: nat

text \<open>The inner loop \<open>for level in range(1, 7)\<close>, left at the first level that matches.\<close>

definition heading_levels :: "nat list" where
  "heading_levels = [1 ..< 7]"

fun level_loop :: "nat list \<Rightarrow> string \<Rightarrow> (nat \<times> string list) option" where
  "level_loop [] line = None"
| "level_loop (lv # lvs) line =
     (case rmatch (heading_re lv) line of
        Some m \<Rightarrow> Some (lv, m)
      | None \<Rightarrow> level_loop lvs line)"

text \<open>The outer loop over \<open>enumerate(lines)\<close>; \<open>i\<close> is the index of the current line.\<close>

fun titles_loop :: "nat \<Rightarrow> bool \<Rightarrow> string list \<Rightarrow> heading list" where
  "titles_loop i in_code_block [] = []"
| "titles_loop i in_code_block (line # lines) =
     (if startswith (strip line) fence then titles_loop (Suc i) (\<not> in_code_block) lines
      else if \<not> in_code_block then
        (case level_loop heading_levels line of
           Some (lv, m) \<Rightarrow>
             \<lparr>level = lv,
              title = clean_markdown_format (strip (grp (lv + 1) m)),
              line_number = i + 1\<rparr> # titles_loop (Suc i) in_code_block lines
         | None \<Rightarrow> titles_loop (Suc i) in_code_block lines)
      else titles_loop (Suc i) in_code_block lines)"

text \<open>A file that cannot be read gives the empty list (the bare \<open>except\<close>).\<close>

definition extract_all_titles :: "string option \<Rightarrow> heading list" where
  "extract_all_titles file =
     (case file of
        None \<Rightarrow> []
      | Some content \<Rightarrow> titles_loop 0 False (split_nl content))"

section \<open>\<open>generate_index_with_toc\<close>\<close>

text \<open>
  One entry of the list \<open>articles\<close>.  \<open>modify_time\<close> is the text \<open>strftime('%Y-%m-%d %H:%M')\<close>
  made of the modification time; Python compares such texts character by character, which
  is the order of \<open>string\<close> here.  The size in KB is a float and is left out: it plays no
  part in the order of the articles or in the word statistics.
\<close>

record article =
  filename :: string
  title_art :: string
  modify_time :: string
  description :: string
  word_count :: int
  titles :: "heading list"
  full_path :: string

text \<open>
  \<open>list.sort(key=..., reverse=True)\<close>: Python reverses the list, sorts it with its stable
  sort and reverses the result, so that equal keys stay in their first order.
\<close>

definition sort_reverse :: "('a \<Rightarrow> 'k::linorder) \<Rightarrow> 'a list \<Rightarrow> 'a list" where
  "sort_reverse key xs = rev (sort_key key (rev xs))"

text \<open>The rows of the listing table: \<open>enumerate(articles, 1)\<close>.\<close>

definition listing_rows :: "article list \<Rightarrow> (nat \<times> article) list" where
  "listing_rows articles = List.enumerate 1 articles"

text \<open>
  The outline of a detail section: a line per heading for the first ten, then the note
  of how many are left out; or the note that the article has no headings.
\<close>

datatype outline_line = Entry string | Omitted nat | NoSections

definition outline_entry :: "heading \<Rightarrow> string" where
  "outline_entry title_info =
     concat (replicate (level title_info - 1) ''  '') @ ''- '' @ title title_info @ [newline]"

definition outline_block :: "heading list \<Rightarrow> outline_line list" where
  "outline_block ts =
     (if ts \<noteq> [] then
        map (\<lambda>title_info. Entry (outline_entry title_info)) (take 10 ts) @
        (if length ts > 10 then [Omitted (length ts - 10)] else [])
      else [NoSections])"

record detail =
  detail_article :: article
  detail_summary :: "string option"
  detail_outline :: "outline_line list"

definition detail_section :: "article \<Rightarrow> detail" where
  "detail_section a =
     \<lparr>detail_article = a,
      detail_summary = (if description a \<noteq> [] then Some (description a) else None),
      detail_outline = outline_block (titles a)\<rparr>"

text \<open>The statistics.  Division and indexing raise where Python raises.\<close>

datatype py_error = ZeroDivisionError | IndexError

definition floordiv :: "int \<Rightarrow> int \<Rightarrow> py_error + int" where
  "floordiv a b = (if b = 0 then Inl ZeroDivisionError else Inr (a div b))"

definition first_item :: "'a list \<Rightarrow> py_error + 'a" where
  "first_item xs = (case xs of [] \<Rightarrow> Inl IndexError | x # _ \<Rightarrow> Inr x)"

text \<open>The text shown for the latest update when there is no article (one Chinese
  character in the source, here by its UTF-8 bytes).\<close>

definition no_update :: string where
  "no_update = [CHR 0xE6, CHR 0x97, CHR 0xA0]"

record statistics =
  article_count :: nat
  total_words :: int
  average_words :: int
  latest_update :: string

definition statistics_block :: "article list \<Rightarrow> py_error + statistics" where
  "statistics_block articles =
     (let total = sum_list (map word_count articles)
      in case (if articles \<noteq> [] then floordiv total (int (length articles)) else Inr 0) of
           Inl e \<Rightarrow> Inl e
         | Inr average \<Rightarrow>
             (case (if articles \<noteq> [] then map_sum id modify_time (first_item articles)
                    else Inr no_update) of
                Inl e \<Rightarrow> Inl e
              | Inr latest \<Rightarrow>
                  Inr \<lparr>article_count = length articles, total_words = total,
                       average_words = average, latest_update = latest\<rparr>))"

text \<open>The report, from the articles in the order in which the directory scan found
  them.\<close>

record report =
  listing :: "(nat \<times> article) list"
  details :: "detail list"
  stats :: statistics

definition generate_index_with_toc :: "article list \<Rightarrow> py_error + report" where
  "generate_index_with_toc found =
     (let articles = sort_reverse modify_time found
      in case statistics_block articles of
           Inl e \<Rightarrow> Inl e
         | Inr st \<Rightarrow>
             Inr \<lparr>listing = listing_rows articles,
                  details = map detail_section articles,
                  stats = st\<rparr>)"

section \<open>The outline as the specification words it\<close>

text \<open>
  The specification describes the outline without a loop: of the lines of the document,
  numbered from 1, those outside fenced code regions are kept (a line whose trimmed text
  starts with the fence opens or closes a region and is itself not kept); each kept line
  that matches a heading level yields an entry, of the smallest level among 1 to 6 that
  matches, with the cleaned captured text and the number of the line.
\<close>

definition numbered :: "string list \<Rightarrow> (nat \<times> string) list" where
  "numbered ls = List.enumerate 1 ls"

fun spec_open_lines :: "bool \<Rightarrow> (nat \<times> string) list \<Rightarrow> (nat \<times> string) list" where
  "spec_open_lines fenced [] = []"
| "spec_open_lines fenced ((n, line) # rest) =
     (if startswith (strip line) fence then spec_open_lines (\<not> fenced) rest
      else if fenced then spec_open_lines fenced rest
      else (n, line) # spec_open_lines fenced rest)"

definition spec_heading_level :: "string \<Rightarrow> nat option" where
  "spec_heading_level line =
     (let matching = filter (\<lambda>lv. rmatch (heading_re lv) line \<noteq> None) heading_levels
      in if matching = [] then None else Some (Min (set matching)))"

definition spec_captured :: "nat \<Rightarrow> string \<Rightarrow> string" where
  "spec_captured lv line =
     (case rmatch (heading_re lv) line of None \<Rightarrow> [] | Some m \<Rightarrow> grp (lv + 1) m)"

definition spec_entry :: "nat \<times> string \<Rightarrow> heading option" where
  "spec_entry nl =
     (case spec_heading_level (snd nl) of
        None \<Rightarrow> None
      | Some lv \<Rightarrow>
          Some \<lparr>level = lv,
                title = clean_markdown_format (spec_captured lv (snd nl)),
                line_number = fst nl\<rparr>)"

definition spec_outline :: "string \<Rightarrow> heading list" where
  "spec_outline text =
     List.map_filter spec_entry (spec_open_lines False (numbered (split_nl text)))"

section \<open>The title steps as the specification words them\<close>

text \<open>No match of the pattern begins at one of the first \<open>n\<close> positions of the text.\<close>

definition no_match_before :: "regex \<Rightarrow> nat \<Rightarrow> string \<Rightarrow> bool" where
  "no_match_before p n s \<longleftrightarrow> list_all (\<lambda>i. rmatch p (drop i s) = None) [0 ..< n]"

text \<open>No toc directive: \<open>re.search\<close> finds none of the four directive patterns.\<close>

definition spec_no_toc :: "string \<Rightarrow> bool" where
  "spec_no_toc content \<longleftrightarrow> list_all (\<lambda>pg. re_search (fst pg) content = None) toc_patterns"

text \<open>The first line outside fenced code regions that is a heading of the level, with
  its number.\<close>

definition spec_first_heading_line :: "nat \<Rightarrow> string \<Rightarrow> (nat \<times> string) option" where
  "spec_first_heading_line lv content =
     find (\<lambda>nl. rmatch (heading_re lv) (snd nl) \<noteq> None)
          (spec_open_lines False (numbered (split_nl content)))"

text \<open>What methods 2 and 3 make of one line: the cleaned heading text, if the line is a
  heading of the level and that text is not empty.\<close>

definition heading_title :: "nat \<Rightarrow> string \<Rightarrow> string option" where
  "heading_title lv line =
     (case rmatch (heading_re lv) line of
        None \<Rightarrow> None
      | Some m \<Rightarrow>
          let t = clean_markdown_format (strip (grp (lv + 1) m))
          in if t \<noteq> [] then Some t else None)"

text \<open>Two documents used below: one with a heading inside a fenced region before the
  first real heading, and one whose only heading stands behind 3000 empty lines.\<close>

definition fenced_example :: string where
  "fenced_example =
     ''intro'' @ [newline] @ fence @ [newline] @ ''# Fake'' @ [newline] @ fence @ [newline] @
     ''# Heading One'' @ [newline] @ ''## Sub''"

definition late_heading_example :: string where
  "late_heading_example = replicate 3000 newline @ ''# Heading One''"

section \<open>Notions used in the proofs about the cleaner\<close>

text \<open>
  The markup patterns of the cleaner are made of items that do not care about the amount
  of whitespace: literal characters that are not whitespace, and runs of characters other
  than such a literal.
\<close>

fun solid :: "item \<Rightarrow> bool" where
  "solid (One (Ch c)) \<longleftrightarrow> \<not> isspace c"
| "solid (Plus (NotCh c)) \<longleftrightarrow> \<not> isspace c"
| "solid (Star (NotCh c)) \<longleftrightarrow> \<not> isspace c"
| "solid _ \<longleftrightarrow> False"

text \<open>
  \<open>squeezed s t\<close>: the text \<open>t\<close> comes from \<open>s\<close> by replacing runs of whitespace with one
  space each and dropping whitespace at the end.
\<close>

inductive squeezed :: "string \<Rightarrow> string \<Rightarrow> bool" where
  sq_end: "\<forall>c \<in> set w. isspace c \<Longrightarrow> squeezed w []"
| sq_char: "\<not> isspace c \<Longrightarrow> squeezed s t \<Longrightarrow> squeezed (c # s) (c # t)"
| sq_space: "w \<noteq> [] \<Longrightarrow> \<forall>c \<in> set w. isspace c \<Longrightarrow> squeezed s t \<Longrightarrow>
             squeezed (w @ s) (CHR '' '' # t)"

text \<open>The last substitution of the cleaner, \<^verbatim>\<open>re.sub(r'\s+', ' ', text)\<close>.\<close>

definition collapse :: "string \<Rightarrow> string" where
  "collapse s = re_sub spaces_re (\<lambda>_. '' '') s"

text \<open>The markup substitutions of the cleaner, without the final treatment of
  whitespace; and the shape their patterns share: they begin and end with a literal.\<close>

definition markup_subs :: "string \<Rightarrow> string" where
  "markup_subs text0 =
     re_sub comment_re (\<lambda>_. [])
       (re_sub tag_re (\<lambda>_. [])
         (re_sub strike_re (grp 2)
           (re_sub code_re (grp 1)
             (re_sub italic_re (grp 1)
               (re_sub bold_re (grp 2)
                 (re_sub image_re (\<lambda>_. [])
                   (re_sub link_re (grp 1) text0)))))))"

definition markup_re :: "regex \<Rightarrow> bool" where
  "markup_re p \<longleftrightarrow> list_all solid p \<and> (\<exists>c q. p = One (Ch c) # q) \<and> (\<exists>c. last p = One (Ch c))"

text \<open>
  A text is already clean when it contains none of the markup forms the cleaner removes:
  \<open>re.search\<close> finds none of the eight markup patterns in it.
\<close>

definition spec_already_clean :: "string \<Rightarrow> bool" where
  "spec_already_clean s \<longleftrightarrow>
     re_search link_re s = None \<and> re_search image_re s = None \<and>
     re_search bold_re s = None \<and> re_search italic_re s = None \<and>
     re_search code_re s = None \<and> re_search strike_re s = None \<and>
     re_search tag_re s = None \<and> re_search comment_re s = None"

section \<open>The order of the report\<close>

lemma sort_reverse_desc:
  "sorted_wrt (\<lambda>a b. key b \<le> key a) (sort_reverse key xs)"
proof -
  have "sorted_wrt (\<lambda>a b. key a \<le> key b) (sort_key key (rev xs))"
    using sorted_sort_key [of key "rev xs"] by (simp add: sorted_map)
  then show ?thesis
    by (simp add: sort_reverse_def sorted_wrt_rev)
qed

lemma sort_reverse_stable:
  "filter (\<lambda>a. key a = k) (sort_reverse key xs) = filter (\<lambda>a. key a = k) xs"
  by (simp add: sort_reverse_def rev_filter [symmetric] sort_key_stable)

lemma sort_reverse_mset: "mset (sort_reverse key xs) = mset xs"
  by (simp add: sort_reverse_def)

lemma statistics_block_total:
  "statistics_block articles =
     Inr \<lparr>article_count = length articles,
          total_words = sum_list (map word_count articles),
          average_words = (if articles = [] then 0
                           else sum_list (map word_count articles) div int (length articles)),
          latest_update = (case articles of [] \<Rightarrow> no_update | a # _ \<Rightarrow> modify_time a)\<rparr>"
  by (cases articles) (simp_all add: statistics_block_def floordiv_def first_item_def Let_def)

text \<open>
  Claim C6.  Whatever articles the scan found, the report is produced, its listing rows
  are numbered from 1, the detail sections stand in the order of the rows, and that order
  is descending in the modification time: of two rows the earlier one never has the
  smaller time.  The rows are the articles found, each once, and the articles of one and
  the same modification time stand in the order in which they were found (the sort is
  stable and has no second key).
\<close>

theorem report_order:
  "\<exists>r. generate_index_with_toc found = Inr r \<and>
       map fst (listing r) = [1 ..< Suc (length found)] \<and>
       map snd (listing r) = map detail_article (details r) \<and>
       sorted_wrt (\<lambda>a b. modify_time b \<le> modify_time a) (map snd (listing r)) \<and>
       mset (map snd (listing r)) = mset found \<and>
       (\<forall>t. filter (\<lambda>a. modify_time a = t) (map snd (listing r)) =
            filter (\<lambda>a. modify_time a = t) found)"
proof -
  let ?arts = "sort_reverse modify_time found"
  have len: "length ?arts = length found"
    by (simp add: sort_reverse_def)
  have snd_rows: "map snd (listing_rows ?arts) = ?arts"
    by (simp add: listing_rows_def)
  have fst_rows: "map fst (listing_rows ?arts) = [1 ..< Suc (length found)]"
    by (simp add: listing_rows_def len del: upt_Suc)
  have det: "map detail_article (map detail_section ?arts) = ?arts"
    by (simp add: detail_section_def comp_def)
  obtain st where st: "statistics_block ?arts = Inr st"
    using statistics_block_total [of ?arts] by blast
  let ?r = "\<lparr>listing = listing_rows ?arts, details = map detail_section ?arts, stats = st\<rparr>"
  have gen: "generate_index_with_toc found = Inr ?r"
    by (simp add: generate_index_with_toc_def Let_def st)
  have "map fst (listing ?r) = [1 ..< Suc (length found)]"
    using fst_rows by simp
  moreover have "map snd (listing ?r) = map detail_article (details ?r)"
    using snd_rows det by simp
  moreover have "sorted_wrt (\<lambda>a b. modify_time b \<le> modify_time a) (map snd (listing ?r))"
    using snd_rows sort_reverse_desc [of modify_time found] by simp
  moreover have "mset (map snd (listing ?r)) = mset found"
    using snd_rows sort_reverse_mset [of modify_time found] by simp
  moreover have "\<forall>t. filter (\<lambda>a. modify_time a = t) (map snd (listing ?r)) =
      filter (\<lambda>a. modify_time a = t) found"
    using snd_rows sort_reverse_stable [of modify_time _ found] by simp
  ultimately show ?thesis
    using gen by blast
qed

text \<open>
  Claim C7.  With no article the report is produced; its statistics give the average
  word count 0 and, for the latest update, the text kept for the empty set.  The
  division of the average is guarded: for no list of articles at all does the report,
  or its statistics block, end in \<open>ZeroDivisionError\<close>.
\<close>

theorem empty_report:
  "generate_index_with_toc [] =
     Inr \<lparr>listing = [], details = [],
          stats = \<lparr>article_count = 0, total_words = 0, average_words = 0,
                   latest_update = no_update\<rparr>\<rparr> \<and>
   (\<forall>found. generate_index_with_toc found \<noteq> Inl ZeroDivisionError) \<and>
   (\<forall>articles. statistics_block articles \<noteq> Inl ZeroDivisionError)"
  by (simp add: generate_index_with_toc_def Let_def statistics_block_total
      sort_reverse_def listing_rows_def)

section \<open>The title\<close>

text \<open>
  Claim C9.  The title depends on the first 3000 characters of the document and on the
  path only: two documents with the same first 3000 characters get the same title.
\<close>

theorem title_window:
  "take 3000 text1 = take 3000 text2 \<Longrightarrow>
   extract_title_from_md (Some text1) filepath = extract_title_from_md (Some text2) filepath"
  by (simp add: extract_title_from_md_def)

theorem title_window_witness:
  "take 3000 (replicate 3000 CHR ''a'' @ ''x'') = take 3000 (replicate 3000 CHR ''a'' @ ''y'') \<and>
   extract_title_from_md (Some (replicate 3000 CHR ''a'' @ ''x'')) ''p.md'' =
   extract_title_from_md (Some (replicate 3000 CHR ''a'' @ ''y'')) ''p.md''"
proof -
  have h: "take 3000 (replicate 3000 CHR ''a'' @ ''x'') =
           take 3000 (replicate 3000 CHR ''a'' @ ''y'')"
    by simp
  show ?thesis using h title_window [OF h] by simp
qed

text \<open>
  Claim C1.  The title is not always non-empty.  Method 4 returns the cleaned line
  whenever it is shorter than 150 characters, without the test for emptiness that methods
  1 to 3 make: a document whose only line is the tag \<open><br>\<close> gets the empty title.
\<close>

theorem body_line_empty_title:
  "extract_title_from_md (Some ''<br>'') ''post.md'' = []"
  by code_simp

section \<open>The cleaner\<close>

text \<open>
  Claim C2.  An image reference with an alternative text is not removed whole: the
  link pattern, applied first, already rewrites the bracket part to the alternative text,
  so that the exclamation mark and that text are left.  Only an image with an empty
  alternative text is removed by the image pattern.
\<close>

theorem image_alt_residue:
  "clean_markdown_format ''![alt](target)'' = ''!alt'' \<and>
   clean_markdown_format ''![](target)'' = []"
  by code_simp

section \<open>Facts about the matcher\<close>

declare rmatch.simps [simp del]

lemma first_some_None_iff: "first_some xs = None \<longleftrightarrow> (\<forall>x \<in> set xs. x = None)"
  by (induction xs rule: first_some.induct) auto

lemma first_some_Cons_Some: "first_some (Some y # xs) = Some y"
  by simp

lemma le_takeWhile_iff:
  "k \<le> length (takeWhile P xs) \<longleftrightarrow> k \<le> length xs \<and> (\<forall>c \<in> set (take k xs). P c)"
proof (induction xs arbitrary: k)
  case Nil
  then show ?case by simp
next
  case (Cons x xs)
  then show ?case by (cases k) auto
qed

lemma rmatch_One_iff:
  "rmatch (One a # p) s \<noteq> None \<longleftrightarrow>
   (\<exists>x xs. s = x # xs \<and> atom_ok a x \<and> rmatch p xs \<noteq> None)"
  by (cases s) (auto simp: rmatch.simps)

lemma rmatch_Plus_iff:
  "rmatch (Plus a # p) s \<noteq> None \<longleftrightarrow>
   (\<exists>k. 1 \<le> k \<and> k \<le> length (takeWhile (atom_ok a) s) \<and> rmatch p (drop k s) \<noteq> None)"
  by (auto simp: rmatch.simps first_some_None_iff less_Suc_eq_le simp del: upt_Suc)

lemma rmatch_Star_iff:
  "rmatch (Star a # p) s \<noteq> None \<longleftrightarrow>
   (\<exists>k. k \<le> length (takeWhile (atom_ok a) s) \<and> rmatch p (drop k s) \<noteq> None)"
  by (auto simp: rmatch.simps first_some_None_iff less_Suc_eq_le simp del: upt_Suc)

lemma rmatch_Plus_greedy:
  assumes "u \<noteq> []" "\<forall>c \<in> set u. atom_ok a c" "v = [] \<or> \<not> atom_ok a (hd v)"
    and "rmatch p v = Some m"
  shows "rmatch (Plus a # p) (u @ v) = Some (u # m)"
proof -
  have tw: "takeWhile (atom_ok a) (u @ v) = u"
    using assms(2,3) by (cases v) (auto simp: takeWhile_append2 takeWhile_eq_all_conv)
  have "[1 ..< Suc (length u)] = [1 ..< length u] @ [length u]"
    using assms(1) by (cases u) simp_all
  then have "rev [1 ..< Suc (length u)] = length u # rev [1 ..< length u]"
    by simp
  then show ?thesis
    using assms(4) by (simp add: rmatch.simps tw del: upt_Suc)
qed

lemma rmatch_Star_greedy:
  assumes "\<forall>c \<in> set u. atom_ok a c" "v = [] \<or> \<not> atom_ok a (hd v)"
    and "rmatch p v = Some m"
  shows "rmatch (Star a # p) (u @ v) = Some (u # m)"
proof -
  have tw: "takeWhile (atom_ok a) (u @ v) = u"
    using assms(1,2) by (cases v) (auto simp: takeWhile_append2 takeWhile_eq_all_conv)
  have "rev [0 ..< Suc (length u)] = length u # rev [0 ..< length u]"
    by simp
  then show ?thesis
    using assms(3) by (simp add: rmatch.simps tw del: upt_Suc)
qed

lemma re_search_None_iff:
  "re_search p s = None \<longleftrightarrow> (\<forall>i \<le> length s. rmatch p (drop i s) = None)"
proof (induction s)
  case Nil
  then show ?case by simp
next
  case (Cons x xs)
  show ?case
  proof
    assume a: "re_search p (x # xs) = None"
    then have h: "rmatch p (x # xs) = None" and t: "re_search p xs = None"
      by (auto split: option.splits)
    show "\<forall>i \<le> length (x # xs). rmatch p (drop i (x # xs)) = None"
    proof (intro allI impI)
      fix i assume "i \<le> length (x # xs)"
      then show "rmatch p (drop i (x # xs)) = None"
        using h t Cons.IH by (cases i) auto
    qed
  next
    assume a: "\<forall>i \<le> length (x # xs). rmatch p (drop i (x # xs)) = None"
    then have "rmatch p (drop 0 (x # xs)) = None" by blast
    moreover have "\<forall>i \<le> length xs. rmatch p (drop i xs) = None"
    proof (intro allI impI)
      fix i assume "i \<le> length xs"
      then have "rmatch p (drop (Suc i) (x # xs)) = None" using a [rule_format, of "Suc i"] by simp
      then show "rmatch p (drop i xs) = None" by simp
    qed
    ultimately show "re_search p (x # xs) = None"
      using Cons.IH by simp
  qed
qed

lemma re_search_Cons_iff:
  "re_search p (x # xs) \<noteq> None \<longleftrightarrow> rmatch p (x # xs) \<noteq> None \<or> re_search p xs \<noteq> None"
  by (cases "rmatch p (x # xs)") simp_all

lemma re_sub_from_drop: "re_sub_from p f n s = re_sub_from p f 0 (drop n s)"
proof (induction s arbitrary: n)
  case Nil
  then show ?case by simp
next
  case (Cons x xs)
  then show ?case by (cases n) simp_all
qed

lemma re_sub_no_match: "re_search p s = None \<Longrightarrow> re_sub p f s = s"
  unfolding re_sub_def
  by (induction s) (auto split: option.splits)

section \<open>Whitespace does not create markup\<close>

lemma isspace_space: "isspace CHR '' ''"
  by (simp add: isspace_def)

lemma squeezed_drop:
  assumes "squeezed s t" "k \<le> length t" "\<forall>c \<in> set (take k t). c \<noteq> d" "\<not> isspace d"
  shows "\<exists>k'. k \<le> k' \<and> k' \<le> length s \<and> (\<forall>c \<in> set (take k' s). c \<noteq> d) \<and>
              squeezed (drop k' s) (drop k t)"
  using assms
proof (induction arbitrary: k rule: squeezed.induct)
  case (sq_end w)
  then have "k = 0" by simp
  then show ?case using sq_end.hyps squeezed.sq_end [of w] by (intro exI [of _ 0]) simp
next
  case (sq_char c s t)
  show ?case
  proof (cases k)
    case 0
    then show ?thesis
      using squeezed.sq_char [OF sq_char.hyps] by (intro exI [of _ 0]) simp
  next
    case (Suc j)
    then have "j \<le> length t" "\<forall>c \<in> set (take j t). c \<noteq> d" "c \<noteq> d"
      using sq_char.prems by auto
    with sq_char.IH [of j] sq_char.prems(3) obtain j' where
      j': "j \<le> j'" "j' \<le> length s" "\<forall>c \<in> set (take j' s). c \<noteq> d" "squeezed (drop j' s) (drop j t)"
      by blast
    show ?thesis
      using j' Suc \<open>c \<noteq> d\<close> by (intro exI [of _ "Suc j'"]) simp
  qed
next
  case (sq_space w s t)
  show ?case
  proof (cases k)
    case 0
    then show ?thesis
      using squeezed.sq_space [OF sq_space.hyps] by (intro exI [of _ 0]) simp
  next
    case (Suc j)
    then have "j \<le> length t" "\<forall>c \<in> set (take j t). c \<noteq> d"
      using sq_space.prems by auto
    with sq_space.IH [of j] sq_space.prems(3) obtain j' where
      j': "j \<le> j'" "j' \<le> length s" "\<forall>c \<in> set (take j' s). c \<noteq> d" "squeezed (drop j' s) (drop j t)"
      by blast
    have wd: "\<forall>c \<in> set w. c \<noteq> d"
      using sq_space.hyps(2) sq_space.prems(3) by auto
    have "length w \<ge> 1" using sq_space.hyps(1) by (cases w) simp_all
    then show ?thesis
      using j' Suc wd by (intro exI [of _ "length w + j'"]) auto
  qed
qed

lemma squeezed_match:
  assumes "list_all solid p" "squeezed s t" "rmatch p t \<noteq> None"
  shows "rmatch p s \<noteq> None"
  using assms
proof (induction p arbitrary: s t)
  case Nil
  then show ?case by (simp add: rmatch.simps)
next
  case (Cons it p)
  from Cons.prems(1) have sol: "solid it" and rest: "list_all solid p" by simp_all
  from sol show ?case
  proof (cases it rule: solid.cases)
    case (1 c)
    with sol have c: "\<not> isspace c" by simp
    from Cons.prems(3) obtain t' where t: "t = c # t'" and m: "rmatch p t' \<noteq> None"
      unfolding 1 rmatch_One_iff by auto
    from Cons.prems(2) t c obtain s' where s: "s = c # s'" and sq: "squeezed s' t'"
      by (cases rule: squeezed.cases) (auto simp: isspace_space)
    from Cons.IH [OF rest sq m] show ?thesis
      unfolding 1 s rmatch_One_iff by simp
  next
    case (2 d)
    with sol have d: "\<not> isspace d" by simp
    from Cons.prems(3) obtain k where k: "1 \<le> k" "k \<le> length (takeWhile (atom_ok (NotCh d)) t)"
      and m: "rmatch p (drop k t) \<noteq> None"
      unfolding 2 rmatch_Plus_iff by auto
    from k(2) have "k \<le> length t" "\<forall>c \<in> set (take k t). c \<noteq> d"
      by (simp_all add: le_takeWhile_iff)
    from squeezed_drop [OF Cons.prems(2) this d] obtain k' where
      k': "k \<le> k'" "k' \<le> length s" "\<forall>c \<in> set (take k' s). c \<noteq> d" "squeezed (drop k' s) (drop k t)"
      by blast
    from Cons.IH [OF rest k'(4) m] have "rmatch p (drop k' s) \<noteq> None" .
    moreover have "k' \<le> length (takeWhile (atom_ok (NotCh d)) s)"
      using k'(2,3) by (simp add: le_takeWhile_iff)
    moreover have "1 \<le> k'" using k(1) k'(1) by simp
    ultimately show ?thesis
      unfolding 2 rmatch_Plus_iff by auto
  next
    case (3 d)
    with sol have d: "\<not> isspace d" by simp
    from Cons.prems(3) obtain k where k: "k \<le> length (takeWhile (atom_ok (NotCh d)) t)"
      and m: "rmatch p (drop k t) \<noteq> None"
      unfolding 3 rmatch_Star_iff by auto
    from k have "k \<le> length t" "\<forall>c \<in> set (take k t). c \<noteq> d"
      by (simp_all add: le_takeWhile_iff)
    from squeezed_drop [OF Cons.prems(2) this d] obtain k' where
      k': "k \<le> k'" "k' \<le> length s" "\<forall>c \<in> set (take k' s). c \<noteq> d" "squeezed (drop k' s) (drop k t)"
      by blast
    from Cons.IH [OF rest k'(4) m] have "rmatch p (drop k' s) \<noteq> None" .
    moreover have "k' \<le> length (takeWhile (atom_ok (NotCh d)) s)"
      using k'(2,3) by (simp add: le_takeWhile_iff)
    ultimately show ?thesis
      unfolding 3 rmatch_Star_iff by auto
  qed (use sol in simp_all)
qed

lemma re_search_append: "re_search p s \<noteq> None \<Longrightarrow> re_search p (w @ s) \<noteq> None"
proof (induction w)
  case Nil
  then show ?case by simp
next
  case (Cons a w)
  then show ?case unfolding append_Cons re_search_Cons_iff by blast
qed

lemma squeezed_search:
  assumes "squeezed s t" "list_all solid (One (Ch c) # p)" "re_search (One (Ch c) # p) t \<noteq> None"
  shows "re_search (One (Ch c) # p) s \<noteq> None"
  using assms
proof (induction rule: squeezed.induct)
  case (sq_end w)
  then show ?case by (simp add: rmatch.simps)
next
  case (sq_char x s t)
  from sq_char.prems(2) consider "rmatch (One (Ch c) # p) (x # t) \<noteq> None"
    | "re_search (One (Ch c) # p) t \<noteq> None"
    unfolding re_search_Cons_iff by blast
  then show ?case
  proof cases
    case 1
    from squeezed_match [OF sq_char.prems(1) squeezed.sq_char [OF sq_char.hyps] 1]
    show ?thesis unfolding re_search_Cons_iff by simp
  next
    case 2
    from sq_char.IH [OF sq_char.prems(1) 2] show ?thesis
      unfolding re_search_Cons_iff by simp
  qed
next
  case (sq_space w s t)
  from sq_space.prems(1) have "c \<noteq> CHR '' ''"
    using isspace_space by auto
  then have "rmatch (One (Ch c) # p) (CHR '' '' # t) = None" by (simp add: rmatch.simps)
  then have "re_search (One (Ch c) # p) t \<noteq> None"
    using sq_space.prems(2) unfolding re_search_Cons_iff by simp
  from sq_space.IH [OF sq_space.prems(1) this] show ?case
    by (rule re_search_append)
qed

lemma rmatch_spaces:
  "rmatch spaces_re (x # xs) =
     (if isspace x then Some [x # takeWhile isspace xs] else None)"
proof (cases "isspace x")
  case True
  let ?u = "x # takeWhile isspace xs" and ?v = "dropWhile isspace xs"
  have v: "?v = [] \<or> \<not> atom_ok Space (hd ?v)"
    using hd_dropWhile [of isspace xs] by auto
  have "rmatch (Plus Space # []) (?u @ ?v) = Some (?u # [])"
    by (rule rmatch_Plus_greedy) (use True v in \<open>auto simp: rmatch.simps dest: set_takeWhileD\<close>)
  then show ?thesis using True by (simp add: spaces_re_def)
next
  case False
  then show ?thesis by (simp add: spaces_re_def rmatch.simps)
qed

lemma collapse_Nil: "collapse [] = []"
  by (simp add: collapse_def re_sub_def)

lemma collapse_Cons:
  "collapse (x # xs) =
     (if isspace x then CHR '' '' # collapse (dropWhile isspace xs) else x # collapse xs)"
proof -
  have "re_sub_from spaces_re (\<lambda>_. '' '') (length (takeWhile isspace xs)) xs =
        re_sub_from spaces_re (\<lambda>_. '' '') 0 (dropWhile isspace xs)"
    by (subst re_sub_from_drop) (simp add: dropWhile_eq_drop)
  then show ?thesis
    by (simp add: collapse_def re_sub_def rmatch_spaces)
qed

lemma rstrip_Nil: "rstrip [] = []"
  by (simp add: rstrip_def)

lemma rstrip_empty_iff: "rstrip s = [] \<longleftrightarrow> (\<forall>c \<in> set s. isspace c)"
  by (simp add: rstrip_def dropWhile_eq_Nil_conv)

lemma rstrip_Cons:
  "rstrip (x # xs) = (if isspace x \<and> rstrip xs = [] then [] else x # rstrip xs)"
proof (cases "\<forall>c \<in> set xs. isspace c")
  case True
  then have "rstrip xs = []" by (simp add: rstrip_empty_iff)
  moreover have "rstrip (x # xs) = (if isspace x then [] else [x])"
    using True by (simp add: rstrip_def dropWhile_append)
  ultimately show ?thesis by simp
next
  case False
  then have "rstrip xs \<noteq> []" by (simp add: rstrip_empty_iff)
  moreover have "rstrip (x # xs) = x # rstrip xs"
    using False by (simp add: rstrip_def dropWhile_append)
  ultimately show ?thesis by simp
qed

lemma collapse_head:
  "s \<noteq> [] \<Longrightarrow> \<not> isspace (hd s) \<Longrightarrow> collapse s \<noteq> [] \<and> hd (collapse s) = hd s"
  by (cases s) (simp_all add: collapse_Cons)

lemma dropWhile_head: "dropWhile P xs = [] \<or> \<not> P (hd (dropWhile P xs))"
  using hd_dropWhile [of P xs] by blast

lemma squeezed_collapse: "squeezed s (rstrip (collapse s))"
proof (induction s rule: length_induct)
  case (1 s)
  show ?case
  proof (cases s)
    case Nil
    then show ?thesis by (simp add: collapse_Nil rstrip_Nil sq_end)
  next
    case (Cons x xs)
    show ?thesis
    proof (cases "isspace x")
      case False
      have "squeezed xs (rstrip (collapse xs))"
        using 1 Cons by simp
      then have "squeezed (x # xs) (x # rstrip (collapse xs))"
        using False by (rule sq_char [rotated])
      then show ?thesis
        using False Cons by (simp add: collapse_Cons rstrip_Cons)
    next
      case True
      let ?w = "x # takeWhile isspace xs" and ?r = "dropWhile isspace xs"
      have s: "s = ?w @ ?r" using Cons by simp
      have w: "\<forall>c \<in> set ?w. isspace c" using True by (auto dest: set_takeWhileD)
      have ih: "squeezed ?r (rstrip (collapse ?r))"
        using 1 Cons by (simp add: length_dropWhile_le le_imp_less_Suc)
      show ?thesis
      proof (cases "?r = []")
        case True
        then have "\<forall>c \<in> set s. isspace c" using s w by (metis append_Nil2)
        then show ?thesis
          using True \<open>isspace x\<close> Cons
          by (simp add: collapse_Cons collapse_Nil rstrip_Cons rstrip_Nil sq_end isspace_space
              del: dropWhile_eq_Nil_conv)
      next
        case False
        then have "\<not> isspace (hd ?r)" using dropWhile_head [of isspace xs] by blast
        with False have "collapse ?r \<noteq> []" "\<not> isspace (hd (collapse ?r))"
          using collapse_head [of ?r] by simp_all
        then have "rstrip (collapse ?r) \<noteq> []"
          by (metis rstrip_empty_iff hd_in_set)
        moreover have "squeezed (?w @ ?r) (CHR '' '' # rstrip (collapse ?r))"
          by (rule sq_space [OF _ w ih]) simp
        ultimately show ?thesis
          using \<open>isspace x\<close> Cons by (simp add: collapse_Cons rstrip_Cons)
      qed
    qed
  qed
qed

lemma lstrip_collapse: "lstrip (collapse s) = collapse (lstrip s)"
proof (cases s)
  case Nil
  then show ?thesis by (simp add: lstrip_def collapse_Nil)
next
  case (Cons x xs)
  show ?thesis
  proof (cases "isspace x")
    case False
    then show ?thesis using Cons by (simp add: lstrip_def collapse_Cons)
  next
    case True
    let ?r = "dropWhile isspace xs"
    have "dropWhile isspace (collapse ?r) = collapse ?r"
    proof (cases "?r = []")
      case True
      then show ?thesis by (simp add: collapse_Nil del: dropWhile_eq_Nil_conv)
    next
      case False
      then have "\<not> isspace (hd ?r)" using dropWhile_head [of isspace xs] by blast
      with False have "collapse ?r \<noteq> []" "\<not> isspace (hd (collapse ?r))"
        using collapse_head [of ?r] by simp_all
      then show ?thesis by (cases "collapse ?r") simp_all
    qed
    then show ?thesis
      using True Cons by (simp add: lstrip_def collapse_Cons isspace_space)
  qed
qed

lemma rstrip_collapse_append:
  "\<forall>c \<in> set w. isspace c \<Longrightarrow> rstrip (collapse (s @ w)) = rstrip (collapse s)"
proof (induction s rule: length_induct)
  case (1 s)
  show ?case
  proof (cases s)
    case Nil
    have "rstrip (collapse w) = []"
      using 1(2) by (cases w) (simp_all add: collapse_Nil collapse_Cons rstrip_Nil rstrip_Cons
          isspace_space dropWhile_eq_Nil_conv [THEN iffD2])
    then show ?thesis using Nil by (simp add: collapse_Nil rstrip_Nil)
  next
    case (Cons x xs)
    show ?thesis
    proof (cases "isspace x")
      case False
      have "rstrip (collapse (xs @ w)) = rstrip (collapse xs)"
        using 1 Cons by simp
      then show ?thesis
        using False Cons by (simp add: collapse_Cons rstrip_Cons)
    next
      case True
      show ?thesis
      proof (cases "\<forall>c \<in> set xs. isspace c")
        case all: True
        then have "dropWhile isspace (xs @ w) = []" "dropWhile isspace xs = []"
          using 1(2) by (simp_all add: dropWhile_eq_Nil_conv)
        then show ?thesis
          using True Cons by (simp add: collapse_Cons del: dropWhile_eq_Nil_conv)
      next
        case False
        then obtain c where "c \<in> set xs" "\<not> isspace c" by blast
        then have dw: "dropWhile isspace (xs @ w) = dropWhile isspace xs @ w"
          by (rule dropWhile_append1)
        have "length (dropWhile isspace xs) < length s"
          using Cons by (simp add: length_dropWhile_le le_imp_less_Suc)
        then have "rstrip (collapse (dropWhile isspace xs @ w)) =
                   rstrip (collapse (dropWhile isspace xs))"
          using 1 by simp
        then show ?thesis
          using True Cons dw by (simp add: collapse_Cons rstrip_Cons)
      qed
    qed
  qed
qed

lemma collapse_idem: "collapse (collapse s) = collapse s"
proof (induction s rule: length_induct)
  case (1 s)
  show ?case
  proof (cases s)
    case Nil
    then show ?thesis by (simp add: collapse_Nil)
  next
    case (Cons x xs)
    show ?thesis
    proof (cases "isspace x")
      case False
      then show ?thesis using 1 Cons by (simp add: collapse_Cons)
    next
      case True
      let ?r = "dropWhile isspace xs"
      have ih: "collapse (collapse ?r) = collapse ?r"
        using 1 Cons by (simp add: length_dropWhile_le le_imp_less_Suc)
      have "dropWhile isspace (collapse ?r) = collapse ?r"
        using lstrip_collapse [of ?r] by (simp add: lstrip_def)
      then show ?thesis
        using True Cons ih by (simp add: collapse_Cons isspace_space)
    qed
  qed
qed

lemma rstrip_decomp: "\<exists>w. (\<forall>c \<in> set w. isspace c) \<and> s = rstrip s @ w"
proof -
  have "rev s = takeWhile isspace (rev s) @ dropWhile isspace (rev s)" by simp
  then have "s = rev (dropWhile isspace (rev s)) @ rev (takeWhile isspace (rev s))"
    by (metis rev_append rev_rev_ident)
  moreover have "\<forall>c \<in> set (rev (takeWhile isspace (rev s))). isspace c"
    by (auto dest: set_takeWhileD)
  ultimately show ?thesis unfolding rstrip_def by blast
qed

lemma lstrip_rstrip: "lstrip (rstrip (lstrip s)) = rstrip (lstrip s)"
proof (cases "lstrip s")
  case Nil
  then show ?thesis by (simp add: rstrip_Nil lstrip_def del: dropWhile_eq_Nil_conv)
next
  case (Cons x xs)
  then have "\<not> isspace x"
    using dropWhile_head [of isspace s] by (simp add: lstrip_def)
  then show ?thesis using Cons by (simp add: rstrip_Cons lstrip_def)
qed

lemma norm_idem: "strip (collapse (strip (collapse s))) = strip (collapse s)"
proof -
  let ?u = "collapse (lstrip s)"
  have n: "strip (collapse s) = rstrip ?u"
    by (simp add: strip_def lstrip_collapse)
  have lu: "lstrip ?u = ?u"
    using lstrip_collapse [of "lstrip s"] by (simp add: lstrip_def)
  have "lstrip (rstrip ?u) = rstrip ?u"
    using lstrip_rstrip [of ?u] lu by simp
  then have "strip (collapse (rstrip ?u)) = rstrip (collapse (rstrip ?u))"
    by (simp add: strip_def lstrip_collapse)
  moreover obtain w where w: "\<forall>c \<in> set w. isspace c" "?u = rstrip ?u @ w"
    using rstrip_decomp [of ?u] by blast
  have "rstrip (collapse (rstrip ?u @ w)) = rstrip (collapse (rstrip ?u))"
    using w(1) by (rule rstrip_collapse_append)
  then have "rstrip (collapse (rstrip ?u)) = rstrip (collapse ?u)"
    using w(2) by simp
  ultimately show ?thesis
    by (simp add: n collapse_idem)
qed

lemma squeezed_norm: "squeezed (lstrip s) (strip (collapse s))"
  using squeezed_collapse [of "lstrip s"] by (simp add: strip_def lstrip_collapse)

section \<open>Cleaning twice\<close>

lemma clean_plain:
  assumes "spec_already_clean s"
  shows "clean_markdown_format s = strip (collapse s)"
proof (cases "s = []")
  case True
  then show ?thesis
    by (simp add: clean_markdown_format_def collapse_Nil strip_def lstrip_def rstrip_def)
next
  case False
  then show ?thesis
    using assms
    by (simp add: clean_markdown_format_def spec_already_clean_def re_sub_no_match collapse_def)
qed

lemma lstrip_decomp: "\<exists>w. s = w @ lstrip s"
  unfolding lstrip_def by (metis takeWhile_dropWhile_id)

lemma norm_search:
  assumes "list_all solid (One (Ch c) # p)" "re_search (One (Ch c) # p) s = None"
  shows "re_search (One (Ch c) # p) (strip (collapse s)) = None"
proof (rule ccontr)
  assume "re_search (One (Ch c) # p) (strip (collapse s)) \<noteq> None"
  from squeezed_search [OF squeezed_norm assms(1) this]
  have "re_search (One (Ch c) # p) (lstrip s) \<noteq> None" .
  moreover obtain w where "s = w @ lstrip s" using lstrip_decomp by blast
  ultimately have "re_search (One (Ch c) # p) s \<noteq> None"
    using re_search_append by metis
  with assms(2) show False by simp
qed

lemma already_clean_norm:
  assumes "spec_already_clean s"
  shows "spec_already_clean (strip (collapse s))"
proof -
  have "re_search link_re (strip (collapse s)) = None"
    using assms unfolding spec_already_clean_def link_re_def
    by (intro norm_search) (simp_all add: isspace_def)
  moreover have "re_search image_re (strip (collapse s)) = None"
    using assms unfolding spec_already_clean_def image_re_def
    by (intro norm_search) (simp_all add: isspace_def)
  moreover have "re_search bold_re (strip (collapse s)) = None"
    using assms unfolding spec_already_clean_def bold_re_def
    by (intro norm_search) (simp_all add: isspace_def)
  moreover have "re_search italic_re (strip (collapse s)) = None"
    using assms unfolding spec_already_clean_def italic_re_def
    by (intro norm_search) (simp_all add: isspace_def)
  moreover have "re_search code_re (strip (collapse s)) = None"
    using assms unfolding spec_already_clean_def code_re_def
    by (intro norm_search) (simp_all add: isspace_def)
  moreover have "re_search strike_re (strip (collapse s)) = None"
    using assms unfolding spec_already_clean_def strike_re_def
    by (intro norm_search) (simp_all add: isspace_def)
  moreover have "re_search tag_re (strip (collapse s)) = None"
    using assms unfolding spec_already_clean_def tag_re_def
    by (intro norm_search) (simp_all add: isspace_def)
  moreover have "re_search comment_re (strip (collapse s)) = None"
    using assms unfolding spec_already_clean_def comment_re_def
    by (intro norm_search) (simp_all add: isspace_def)
  ultimately show ?thesis
    unfolding spec_already_clean_def by blast
qed

text \<open>
  Claim C8.  On a text that is already clean, that is, in which none of the eight markup
  patterns of the cleaner is found, cleaning twice gives what cleaning once gives.
\<close>

theorem clean_twice:
  "spec_already_clean s \<Longrightarrow>
   clean_markdown_format (clean_markdown_format s) = clean_markdown_format s"
proof -
  assume a: "spec_already_clean s"
  have "clean_markdown_format (clean_markdown_format s) =
        clean_markdown_format (strip (collapse s))"
    by (simp only: clean_plain [OF a])
  also have "\<dots> = strip (collapse (strip (collapse s)))"
    by (rule clean_plain [OF already_clean_norm [OF a]])
  also have "\<dots> = strip (collapse s)"
    by (rule norm_idem)
  also have "\<dots> = clean_markdown_format s"
    by (simp only: clean_plain [OF a])
  finally show ?thesis .
qed

theorem clean_twice_witness:
  "spec_already_clean ''  2 * 3  <  4  [x] '' \<and>
   clean_markdown_format (clean_markdown_format ''  2 * 3  <  4  [x] '') =
   clean_markdown_format ''  2 * 3  <  4  [x] '' \<and>
   clean_markdown_format ''  2 * 3  <  4  [x] '' = ''2 * 3 < 4 [x]''"
proof -
  have h: "spec_already_clean ''  2 * 3  <  4  [x] ''"
    by code_simp
  have v: "clean_markdown_format ''  2 * 3  <  4  [x] '' = ''2 * 3 < 4 [x]''"
    by code_simp
  show ?thesis using h v clean_twice [OF h] by simp
qed

section \<open>Whitespace around a text does not change its cleaning\<close>

lemma first_some_Some: "first_some xs = Some y \<Longrightarrow> Some y \<in> set xs"
  by (induction xs rule: first_some.induct) auto

lemma first_some_append:
  "first_some (xs @ ys) = (case first_some xs of Some y \<Rightarrow> Some y | None \<Rightarrow> first_some ys)"
  by (induction xs rule: first_some.induct) auto

lemma rmatch_length: "rmatch p s = Some m \<Longrightarrow> length (concat m) \<le> length s"
proof (induction p arbitrary: s m)
  case Nil
  then show ?case by (simp add: rmatch.simps)
next
  case (Cons it p)
  have quant: "length (concat m) \<le> length s"
    if "first_some (map (\<lambda>k. map_option ((#) (take k s)) (rmatch p (drop k s))) ks) = Some m"
    for ks
  proof -
    from first_some_Some [OF that] obtain k where
      "map_option ((#) (take k s)) (rmatch p (drop k s)) = Some m" by (auto simp: eq_commute)
    then obtain m' where m': "rmatch p (drop k s) = Some m'" "m = take k s # m'" by auto
    from Cons.IH [OF m'(1)] have "length (concat m') \<le> length s - k" by simp
    moreover have "length (take k s) \<le> k" by simp
    moreover have "length (take k s) \<le> length s" by simp
    moreover have "length (concat m) = length (take k s) + length (concat m')"
      using m'(2) by simp
    ultimately show ?thesis by linarith
  qed
  show ?case
  proof (cases it)
    case (One a)
    then show ?thesis
      using Cons by (cases s) (auto simp: rmatch.simps split: if_splits)
  next
    case (Plus a)
    then show ?thesis using Cons.prems quant by (simp add: rmatch.simps del: upt_Suc)
  next
    case (Star a)
    then show ?thesis using Cons.prems quant by (simp add: rmatch.simps del: upt_Suc)
  next
    case Eos
    with Cons.prems obtain z where z: "rmatch p s = Some z" "m = [] # z"
      by (auto simp: rmatch.simps split: if_splits)
    from Cons.IH [OF z(1)] show ?thesis using z(2) by simp
  qed
qed

text \<open>A pattern that ends in a literal does not match whitespace alone.\<close>

lemma rmatch_blank:
  assumes "list_all solid p" "p \<noteq> []" "\<exists>c. last p = One (Ch c)" "\<forall>c \<in> set v. isspace c"
  shows "rmatch p v = None"
  using assms
proof (induction p arbitrary: v)
  case Nil
  then show ?case by simp
next
  case (Cons it p)
  from Cons.prems(1) have sol: "solid it" and rest: "list_all solid p" by simp_all
  have tail: "rmatch p u = None" if "p \<noteq> []" "\<forall>c \<in> set u. isspace c" for u
    using Cons.IH [OF rest that(1) _ that(2)] Cons.prems(3) that(1) by simp
  from sol show ?case
  proof (cases it rule: solid.cases)
    case (1 c)
    with sol have "\<not> isspace c" by simp
    then show ?thesis
      using 1 Cons.prems(4) by (cases v) (auto simp: rmatch.simps)
  next
    case (2 d)
    with Cons.prems(3) have "p \<noteq> []" by auto
    then have "rmatch p (drop k v) = None" for k
      using tail [of "drop k v"] Cons.prems(4) by (meson in_set_dropD)
    then show ?thesis
      unfolding 2 by (simp add: rmatch.simps first_some_None_iff del: upt_Suc)
  next
    case (3 d)
    with Cons.prems(3) have "p \<noteq> []" by auto
    then have "rmatch p (drop k v) = None" for k
      using tail [of "drop k v"] Cons.prems(4) by (meson in_set_dropD)
    then show ?thesis
      unfolding 3 by (simp add: rmatch.simps first_some_None_iff del: upt_Suc)
  qed (use sol in simp_all)
qed

lemma greedy_append_blank:
  assumes ih: "\<And>u. rmatch p (u @ w) = rmatch p u"
    and blank: "\<And>v. \<forall>c \<in> set v. isspace c \<Longrightarrow> rmatch p v = None"
    and w: "\<forall>c \<in> set w. isspace c"
    and lo: "lo \<le> 1"
  shows "first_some (map (\<lambda>k. map_option ((#) (take k (t @ w))) (rmatch p (drop k (t @ w))))
                         (rev [lo ..< Suc (length (takeWhile P (t @ w)))])) =
         first_some (map (\<lambda>k. map_option ((#) (take k t)) (rmatch p (drop k t)))
                         (rev [lo ..< Suc (length (takeWhile P t))]))"
proof -
  let ?K = "length (takeWhile P t)" and ?K' = "length (takeWhile P (t @ w))"
  let ?f = "\<lambda>k. map_option ((#) (take k (t @ w))) (rmatch p (drop k (t @ w)))"
  let ?g = "\<lambda>k. map_option ((#) (take k t)) (rmatch p (drop k t))"
  have "?K \<le> length t" by (rule length_takeWhile_le)
  moreover have "take ?K t = takeWhile P t"
    by (metis takeWhile_eq_take)
  ultimately have KK: "?K \<le> ?K'"
    unfolding le_takeWhile_iff [of ?K P "t @ w"]
    by (auto dest: set_takeWhileD)
  have beyond: "length t < k" if "?K < k" "k \<le> ?K'" for k
  proof (rule ccontr)
    assume "\<not> length t < k"
    then have kt: "k \<le> length t" by simp
    from that(2) have "\<forall>c \<in> set (take k (t @ w)). P c"
      by (simp add: le_takeWhile_iff)
    then have "\<forall>c \<in> set (take k t). P c" using kt by simp
    with kt have "k \<le> ?K" by (simp add: le_takeWhile_iff)
    with that(1) show False by simp
  qed
  have none: "?f k = None" if "k \<in> set [Suc ?K ..< Suc ?K']" for k
  proof -
    from that have "?K < k" "k \<le> ?K'" by (simp_all del: upt_Suc)
    then have "length t < k" by (rule beyond)
    then have "drop k (t @ w) = drop (k - length t) w" by simp
    moreover have "\<forall>c \<in> set (drop (k - length t) w). isspace c"
      using w by (meson in_set_dropD)
    ultimately show ?thesis using blank by simp
  qed
  have same: "?f k = ?g k" if "k \<in> set [lo ..< Suc ?K]" for k
  proof -
    from that have "k \<le> ?K" by (simp del: upt_Suc)
    then have "k \<le> length t"
      using length_takeWhile_le [of P t] by simp
    then show ?thesis using ih [of "drop k t"] by simp
  qed
  have split: "[lo ..< Suc ?K'] = [lo ..< Suc ?K] @ [Suc ?K ..< Suc ?K']"
  proof -
    have "lo \<le> Suc ?K" using lo by simp
    from upt_add_eq_append [OF this, of "?K' - ?K"] show ?thesis
      using KK by simp
  qed
  have a: "first_some (map ?f (rev [Suc ?K ..< Suc ?K'])) = None"
    using none unfolding first_some_None_iff by (simp del: upt_Suc)
  have b: "map ?f (rev [lo ..< Suc ?K]) = map ?g (rev [lo ..< Suc ?K])"
    using same by (intro map_cong refl) (simp only: set_rev)
  show ?thesis
    unfolding split rev_append map_append first_some_append a b
    by (simp only: option.case)
qed

lemma rmatch_append_blank:
  assumes "list_all solid p" "p = [] \<or> (\<exists>c. last p = One (Ch c))" "\<forall>c \<in> set w. isspace c"
  shows "rmatch p (t @ w) = rmatch p t"
  using assms(1,2)
proof (induction p arbitrary: t)
  case Nil
  then show ?case by (simp add: rmatch.simps)
next
  case (Cons it p)
  from Cons.prems(1) have sol: "solid it" and rest: "list_all solid p" by simp_all
  from Cons.prems(2) have tl: "p = [] \<or> (\<exists>c. last p = One (Ch c))"
    by (cases "p = []") simp_all
  have ih: "rmatch p (u @ w) = rmatch p u" for u
    using Cons.IH [OF rest tl] .
  have blank: "rmatch p v = None" if "p \<noteq> []" "\<forall>c \<in> set v. isspace c" for v
    using rmatch_blank [OF rest that(1) _ that(2)] tl that(1) by simp
  from sol show ?case
  proof (cases it rule: solid.cases)
    case (1 c)
    with sol have c: "\<not> isspace c" by simp
    show ?thesis
    proof (cases t)
      case Nil
      have "rmatch (One (Ch c) # p) w = None"
        using c assms(3) by (cases w) (auto simp: rmatch.simps)
      then show ?thesis using Nil 1 by (simp add: rmatch.simps)
    next
      case (Cons x t')
      then show ?thesis using 1 ih by (simp add: rmatch.simps)
    qed
  next
    case (2 d)
    with Cons.prems(2) have "p \<noteq> []" by auto
    then show ?thesis
      unfolding 2 rmatch.simps
      by (intro greedy_append_blank ih blank assms(3)) simp_all
  next
    case (3 d)
    with Cons.prems(2) have "p \<noteq> []" by auto
    then show ?thesis
      unfolding 3 rmatch.simps
      by (intro greedy_append_blank ih blank assms(3)) simp_all
  qed (use sol in simp_all)
qed

lemma re_sub_lead:
  assumes "markup_re p" "\<forall>c \<in> set w. isspace c"
  shows "re_sub p f (w @ x) = w @ re_sub p f x"
  using assms(2)
proof (induction w)
  case Nil
  then show ?case by simp
next
  case (Cons a w)
  from assms(1) obtain c q where p: "p = One (Ch c) # q" and c: "\<not> isspace c"
    unfolding markup_re_def by auto
  with Cons.prems have "rmatch p (a # w @ x) = None"
    by (auto simp: rmatch.simps)
  then show ?case
    using Cons by (simp add: re_sub_def)
qed

lemma re_sub_from_trail:
  assumes "markup_re p" "\<forall>c \<in> set w. isspace c"
  shows "n \<le> length x \<Longrightarrow> re_sub_from p f n (x @ w) = re_sub_from p f n x @ w"
proof (induction x arbitrary: n)
  case Nil
  from assms(1) have sol: "list_all solid p" and ne: "p \<noteq> []" and la: "\<exists>c. last p = One (Ch c)"
    unfolding markup_re_def by auto
  have "re_search p w = None"
    unfolding re_search_None_iff
    using rmatch_blank [OF sol ne la] assms(2) by (meson in_set_dropD)
  then have "re_sub p f w = w" by (rule re_sub_no_match)
  then show ?case using Nil by (simp add: re_sub_def)
next
  case (Cons a x)
  from assms(1) have sol: "list_all solid p" and la: "p = [] \<or> (\<exists>c. last p = One (Ch c))"
    unfolding markup_re_def by auto
  show ?case
  proof (cases n)
    case 0
    have eq: "rmatch p (a # x @ w) = rmatch p (a # x)"
      using rmatch_append_blank [OF sol la assms(2), of "a # x"] by simp
    show ?thesis
    proof (cases "rmatch p (a # x)")
      case None
      then show ?thesis using 0 eq Cons.IH [of 0] by simp
    next
      case (Some m)
      from rmatch_length [OF Some] have "length (concat m) - 1 \<le> length x" by simp
      from Cons.IH [OF this] show ?thesis using 0 eq Some by simp
    qed
  next
    case (Suc n')
    then show ?thesis using Cons by simp
  qed
qed

lemma re_sub_frame:
  assumes "markup_re p" "\<forall>c \<in> set w1. isspace c" "\<forall>c \<in> set w2. isspace c"
  shows "re_sub p f (w1 @ x @ w2) = w1 @ re_sub p f x @ w2"
  using re_sub_lead [OF assms(1,2)] re_sub_from_trail [OF assms(1,3), of 0 x f]
  by (simp add: re_sub_def)

lemma markup_res:
  "markup_re link_re" "markup_re image_re" "markup_re bold_re" "markup_re italic_re"
  "markup_re code_re" "markup_re strike_re" "markup_re tag_re" "markup_re comment_re"
  by (simp_all add: markup_re_def link_re_def image_re_def bold_re_def italic_re_def
      code_re_def strike_re_def tag_re_def comment_re_def isspace_def)

lemma markup_subs_frame:
  assumes "\<forall>c \<in> set w1. isspace c" "\<forall>c \<in> set w2. isspace c"
  shows "markup_subs (w1 @ x @ w2) = w1 @ markup_subs x @ w2"
  unfolding markup_subs_def
  by (simp only: re_sub_frame [OF _ assms] markup_res)

lemma markup_subs_Nil: "markup_subs [] = []"
  by (simp add: markup_subs_def re_sub_def)

lemma clean_alt: "clean_markdown_format x = strip (collapse (markup_subs x))"
proof (cases "x = []")
  case True
  then show ?thesis
    by (simp add: clean_markdown_format_def markup_subs_Nil collapse_Nil strip_def lstrip_def
        rstrip_def)
next
  case False
  then show ?thesis
    by (simp add: clean_markdown_format_def markup_subs_def collapse_def Let_def)
qed

lemma norm_frame:
  assumes "\<forall>c \<in> set w1. isspace c" "\<forall>c \<in> set w2. isspace c"
  shows "strip (collapse (w1 @ x @ w2)) = strip (collapse x)"
proof -
  have l1: "lstrip (w1 @ x @ w2) = lstrip (x @ w2)"
    using assms(1) by (simp add: lstrip_def dropWhile_append2)
  have "rstrip (collapse (lstrip (x @ w2))) = rstrip (collapse (lstrip x))"
  proof (cases "\<forall>c \<in> set x. isspace c")
    case True
    then have "dropWhile isspace (x @ w2) = []" "dropWhile isspace x = []"
      using assms(2) by (simp_all add: dropWhile_eq_Nil_conv)
    then show ?thesis by (simp add: lstrip_def del: dropWhile_eq_Nil_conv)
  next
    case False
    then obtain c where "c \<in> set x" "\<not> isspace c" by blast
    then have "dropWhile isspace (x @ w2) = dropWhile isspace x @ w2"
      by (rule dropWhile_append1)
    then show ?thesis
      using rstrip_collapse_append [OF assms(2)] by (simp add: lstrip_def)
  qed
  then show ?thesis
    by (simp add: strip_def lstrip_collapse l1)
qed

lemma strip_decomp:
  "\<exists>w1 w2. (\<forall>c \<in> set w1. isspace c) \<and> (\<forall>c \<in> set w2. isspace c) \<and> g = w1 @ strip g @ w2"
proof -
  obtain w2 where w2: "\<forall>c \<in> set w2. isspace c" "lstrip g = rstrip (lstrip g) @ w2"
    using rstrip_decomp [of "lstrip g"] by blast
  have "g = takeWhile isspace g @ lstrip g"
    by (simp add: lstrip_def)
  then have "g = takeWhile isspace g @ strip g @ w2"
    using w2(2) by (simp add: strip_def)
  moreover have "\<forall>c \<in> set (takeWhile isspace g). isspace c"
    by (auto dest: set_takeWhileD)
  ultimately show ?thesis using w2(1) by blast
qed

lemma clean_strip: "clean_markdown_format (strip g) = clean_markdown_format g"
proof -
  obtain w1 w2 where w: "\<forall>c \<in> set w1. isspace c" "\<forall>c \<in> set w2. isspace c"
    and g: "g = w1 @ strip g @ w2"
    using strip_decomp [of g] by blast
  have "clean_markdown_format g = strip (collapse (markup_subs (w1 @ strip g @ w2)))"
    using g by (simp only: clean_alt [symmetric])
  also have "\<dots> = strip (collapse (w1 @ markup_subs (strip g) @ w2))"
    by (simp only: markup_subs_frame [OF w])
  also have "\<dots> = strip (collapse (markup_subs (strip g)))"
    by (rule norm_frame [OF w])
  finally show ?thesis
    by (simp only: clean_alt)
qed

section \<open>The outline\<close>

lemma level_loop_find:
  "level_loop lvs line =
     (case find (\<lambda>lv. rmatch (heading_re lv) line \<noteq> None) lvs of
        None \<Rightarrow> None
      | Some lv \<Rightarrow> Some (lv, the (rmatch (heading_re lv) line)))"
  by (induction lvs) (auto split: option.splits)

lemma find_sorted_Min:
  "sorted xs \<Longrightarrow>
   find P xs = (if filter P xs = [] then None else Some (Min (set (filter P xs))))"
proof (induction xs)
  case Nil
  then show ?case by simp
next
  case (Cons x xs)
  show ?case
  proof (cases "P x")
    case True
    have "Min (insert x (set (filter P xs))) = x"
      using Cons.prems by (intro Min_eqI) auto
    then show ?thesis using True by simp
  next
    case False
    then show ?thesis using Cons by simp
  qed
qed

lemma level_loop_spec:
  "level_loop heading_levels line =
     (case spec_heading_level line of
        None \<Rightarrow> None
      | Some lv \<Rightarrow> Some (lv, the (rmatch (heading_re lv) line)))"
proof -
  have "sorted heading_levels" by (simp add: heading_levels_def)
  from find_sorted_Min [OF this]
  have "find (\<lambda>lv. rmatch (heading_re lv) line \<noteq> None) heading_levels = spec_heading_level line"
    unfolding spec_heading_level_def Let_def by simp
  then show ?thesis
    by (simp only: level_loop_find)
qed

lemma spec_heading_level_matches:
  assumes "spec_heading_level line = Some lv"
  shows "\<exists>m. rmatch (heading_re lv) line = Some m"
proof -
  let ?ms = "filter (\<lambda>lv. rmatch (heading_re lv) line \<noteq> None) heading_levels"
  have ne: "?ms \<noteq> []"
    using assms unfolding spec_heading_level_def Let_def by (cases "?ms = []") simp_all
  then have lv: "lv = Min (set ?ms)"
    using assms unfolding spec_heading_level_def Let_def by simp
  have "set ?ms \<noteq> {}"
    using ne by (simp add: set_empty del: filter_empty_conv set_filter)
  then have "Min (set ?ms) \<in> set ?ms"
    by (rule Min_in [OF finite_set])
  then have "lv \<in> set ?ms" using lv by simp
  then show ?thesis by auto
qed

lemma spec_entry_None: "spec_heading_level line = None \<Longrightarrow> spec_entry (n, line) = None"
  by (simp add: spec_entry_def)

lemma spec_entry_Some:
  "spec_heading_level line = Some lv \<Longrightarrow> rmatch (heading_re lv) line = Some m \<Longrightarrow>
   spec_entry (n, line) =
     Some \<lparr>level = lv, title = clean_markdown_format (strip (grp (lv + 1) m)), line_number = n\<rparr>"
  by (simp add: spec_entry_def spec_captured_def clean_strip)

lemma titles_loop_spec:
  "titles_loop i b ls =
     List.map_filter spec_entry (spec_open_lines b (List.enumerate (Suc i) ls))"
proof (induction ls arbitrary: i b)
  case Nil
  then show ?case by (simp add: map_filter_simps)
next
  case (Cons line ls)
  show ?case
  proof (cases "spec_heading_level line")
    case None
    then show ?thesis
      using Cons.IH spec_entry_None [OF None]
      by (simp add: level_loop_spec map_filter_simps)
  next
    case (Some lv)
    from spec_heading_level_matches [OF Some] obtain m where m: "rmatch (heading_re lv) line = Some m"
      by blast
    show ?thesis
      using Cons.IH Some m spec_entry_Some [OF Some m]
      by (simp add: level_loop_spec map_filter_simps)
  qed
qed

lemma extract_all_titles_spec: "extract_all_titles (Some text) = spec_outline text"
  by (simp add: extract_all_titles_def spec_outline_def numbered_def titles_loop_spec)






lemma heading_loop_nonempty: "heading_loop lv b ls \<noteq> Some []"
  by (induction lv b ls rule: heading_loop.induct) (auto simp: Let_def split: option.splits)


text \<open>
  Claim C10.  The outline has an entry for every heading line outside fenced regions,
  whatever its cleaned text: the number of entries is the number of such lines.  The line
  \<open># <br>\<close> gives an entry with the empty text, which the detail section of the report
  renders as a list item with nothing behind the dash; the title extractor, in contrast,
  never returns an empty heading text.
\<close>

theorem outline_keeps_empty_text:
  "length (extract_all_titles (Some text)) =
     length (filter (\<lambda>nl. spec_heading_level (snd nl) \<noteq> None)
               (spec_open_lines False (numbered (split_nl text)))) \<and>
   extract_all_titles (Some ''# <br>'') = [\<lparr>level = 1, title = [], line_number = 1\<rparr>] \<and>
   outline_block (extract_all_titles (Some ''# <br>'')) = [Entry (''- '' @ [newline])] \<and>
   heading_loop lv in_code_block ls \<noteq> Some []"
proof -
  have ne: "spec_entry nl = None \<longleftrightarrow> spec_heading_level (snd nl) = None" for nl
    by (simp add: spec_entry_def split: option.splits)
  have "length (List.map_filter spec_entry nls) =
        length (filter (\<lambda>nl. spec_heading_level (snd nl) \<noteq> None) nls)" for nls
  proof (induction nls)
    case Nil
    then show ?case by (simp add: map_filter_simps)
  next
    case (Cons nl nls)
    then show ?case
      using ne [of nl] by (cases "spec_entry nl") (simp_all add: map_filter_simps)
  qed
  then have "length (extract_all_titles (Some text)) =
     length (filter (\<lambda>nl. spec_heading_level (snd nl) \<noteq> None)
               (spec_open_lines False (numbered (split_nl text))))"
    by (simp add: extract_all_titles_spec spec_outline_def)
  moreover have "extract_all_titles (Some ''# <br>'') = [\<lparr>level = 1, title = [], line_number = 1\<rparr>]"
    by code_simp
  moreover have "outline_block (extract_all_titles (Some ''# <br>'')) = [Entry (''- '' @ [newline])]"
    by code_simp
  ultimately show ?thesis
    using heading_loop_nonempty by blast
qed

section \<open>The directive step\<close>

lemma re_search_hit: "rmatch p s = Some m \<Longrightarrow> re_search p s = Some m"
  by (cases s) simp_all

lemma re_search_skip:
  "\<forall>i < length pre. rmatch p (drop i (pre @ rest)) = None \<Longrightarrow>
   re_search p (pre @ rest) = re_search p rest"
proof (induction pre)
  case Nil
  then show ?case by simp
next
  case (Cons a pre)
  from Cons.prems have "rmatch p (drop 0 ((a # pre) @ rest)) = None" by blast
  then have h: "rmatch p (a # pre @ rest) = None" by simp
  have "\<forall>i < length pre. rmatch p (drop i (pre @ rest)) = None"
  proof (intro allI impI)
    fix i assume "i < length pre"
    then have "rmatch p (drop (Suc i) ((a # pre) @ rest)) = None"
      using Cons.prems [rule_format, of "Suc i"] by simp
    then show "rmatch p (drop i (pre @ rest)) = None" by simp
  qed
  from Cons.IH [OF this] show ?case using h by simp
qed

lemma rmatch_One_step:
  "atom_ok a x \<Longrightarrow> rmatch p xs = Some m \<Longrightarrow> rmatch (One a # p) (x # xs) = Some ([x] # m)"
  by (simp add: rmatch.simps)

lemma rmatch_toc_directive:
  assumes "x \<noteq> []" "CHR '')'' \<notin> set x"
  shows "\<exists>m. rmatch toc_re1 (''@[toc]('' @ x @ '')'' @ post) = Some m \<and> grp 8 m = x"
proof -
  have close: "rmatch [One (Ch CHR '')'')] ('')'' @ post) = Some ['')'']"
    by (simp add: rmatch.simps)
  have body: "rmatch [Plus (NotCh CHR '')''), One (Ch CHR '')'')] (x @ '')'' @ post)
        = Some [x, '')'']"
    by (rule rmatch_Plus_greedy [OF assms(1) _ _ close]) (use assms(2) in auto)
  have paren: "rmatch [One (Ch CHR ''(''), Plus (NotCh CHR '')''), One (Ch CHR '')'')]
        (''('' @ x @ '')'' @ post) = Some [''('', x, '')'']"
    using body by (simp add: rmatch_One_step)
  have sp: "rmatch [Star Space, One (Ch CHR ''(''), Plus (NotCh CHR '')''), One (Ch CHR '')'')]
        ([] @ ''('' @ x @ '')'' @ post) = Some [[], ''('', x, '')'']"
    by (rule rmatch_Star_greedy [OF _ _ paren]) (simp_all add: isspace_def)
  have "rmatch toc_re1 (''@[toc]('' @ x @ '')'' @ post) =
        Some [''@'', ''['', ''t'', ''o'', ''c'', '']'', [], ''('', x, '')'']"
    using sp by (simp add: toc_re1_def rmatch_One_step lower_def)
  then show ?thesis by (simp add: grp_def)
qed

text \<open>
  Claim C3, as amended.  Let the first 3000 characters of the document contain a
  directive \<open>@[toc](X)\<close>, with \<open>X\<close> not empty and without a closing parenthesis, such that
  no match of the pattern \<^verbatim>\<open>@\[toc\]\s*\(([^)]+)\)\<close> begins before it.  Then the title is
  \<open>X\<close>, trimmed and with one layer of surrounding parentheses removed, provided that is
  not empty: it is returned as it is, not cleaned, whatever headings the document has.
  For the directive \<open>@[toc](My Title)\<close> this is \<open>My Title\<close>.
\<close>

theorem toc_title_returned:
  assumes "take 3000 text0 = pre @ ''@[toc]('' @ x @ '')'' @ post"
    and "no_match_before toc_re1 (length pre) (take 3000 text0)"
    and "x \<noteq> []" and "CHR '')'' \<notin> set x" and "strip_parens (strip x) \<noteq> []"
  shows "extract_title_from_md (Some text0) filepath = strip_parens (strip x)"
proof -
  let ?content = "take 3000 text0"
  obtain m where m: "rmatch toc_re1 (''@[toc]('' @ x @ '')'' @ post) = Some m" "grp 8 m = x"
    using rmatch_toc_directive [OF assms(3,4)] by blast
  have "\<forall>i < length pre. rmatch toc_re1 (drop i ?content) = None"
    using assms(2) by (simp add: no_match_before_def list_all_iff)
  then have "re_search toc_re1 ?content = re_search toc_re1 (''@[toc]('' @ x @ '')'' @ post)"
    unfolding assms(1) by (rule re_search_skip)
  also have "\<dots> = Some m"
    using m(1) by (rule re_search_hit)
  finally have "toc_loop toc_patterns ?content = Some (strip_parens (strip x))"
    using m(2) assms(5) by (simp add: toc_patterns_def Let_def)
  then show ?thesis
    by (simp add: extract_title_from_md_def Let_def)
qed

theorem toc_title_returned_witness:
  "take 3000 (''# Doc'' @ [newline] @ ''@[toc](My Title)'' @ [newline] @ ''# Heading'') =
     (''# Doc'' @ [newline]) @ ''@[toc]('' @ ''My Title'' @ '')'' @ ([newline] @ ''# Heading'') \<and>
   no_match_before toc_re1 (length (''# Doc'' @ [newline]))
     (take 3000 (''# Doc'' @ [newline] @ ''@[toc](My Title)'' @ [newline] @ ''# Heading'')) \<and>
   ''My Title'' \<noteq> [] \<and> CHR '')'' \<notin> set ''My Title'' \<and> strip_parens (strip ''My Title'') \<noteq> [] \<and>
   extract_title_from_md
     (Some (''# Doc'' @ [newline] @ ''@[toc](My Title)'' @ [newline] @ ''# Heading'')) ''post.md'' =
     ''My Title''"
proof -
  let ?doc = "''# Doc'' @ [newline] @ ''@[toc](My Title)'' @ [newline] @ ''# Heading''"
  have h1: "take 3000 ?doc =
     (''# Doc'' @ [newline]) @ ''@[toc]('' @ ''My Title'' @ '')'' @ ([newline] @ ''# Heading'')"
    by simp
  have h2: "no_match_before toc_re1 (length (''# Doc'' @ [newline])) (take 3000 ?doc)"
    by code_simp
  have h3: "''My Title'' \<noteq> []" by simp
  have h4: "CHR '')'' \<notin> set ''My Title''" by simp
  have h5: "strip_parens (strip ''My Title'') \<noteq> []" by code_simp
  have v: "strip_parens (strip ''My Title'') = ''My Title''" by code_simp
  show ?thesis
    using h1 h2 h3 h4 h5 toc_title_returned [OF h1 h2 h3 h4 h5, of "''post.md''"] v by simp
qed

text \<open>
  The claim as stated fails: a document may contain \<open>@[toc](My Title)\<close> behind another
  directive, and \<open>re.search\<close> returns the leftmost match.
\<close>

theorem toc_second_directive:
  "extract_title_from_md (Some (''@[toc](Other)'' @ [newline] @ ''@[toc](My Title)'')) ''post.md''
     = ''Other''"
  by code_simp

section \<open>The heading steps\<close>

lemma toc_loop_none:
  "list_all (\<lambda>pg. re_search (fst pg) content = None) ps \<Longrightarrow> toc_loop ps content = None"
  by (induction ps content rule: toc_loop.induct) simp_all

lemma heading_loop_open:
  "heading_loop lv b ls =
     first_some (map (\<lambda>nl. heading_title lv (snd nl)) (spec_open_lines b (List.enumerate k ls)))"
proof (induction ls arbitrary: b k)
  case Nil
  then show ?case by simp
next
  case (Cons line ls)
  have ih: "heading_loop lv b' ls =
      first_some (map (\<lambda>nl. heading_title lv (snd nl))
        (spec_open_lines b' (List.enumerate (Suc k) ls)))" for b'
    by (rule Cons.IH)
  show ?case
  proof (cases "startswith (strip line) fence")
    case True
    then show ?thesis by (simp add: ih)
  next
    case nofence: False
    show ?thesis
    proof (cases b)
      case True
      then show ?thesis using nofence by (simp add: ih)
    next
      case False
      show ?thesis
      proof (cases "heading_title lv line")
        case None
        then show ?thesis
          using nofence False
          by (cases "rmatch (heading_re lv) line")
            (simp_all add: ih heading_title_def Let_def split: if_splits)
      next
        case (Some t)
        then show ?thesis
          using nofence False
          by (cases "rmatch (heading_re lv) line")
            (simp_all add: ih heading_title_def Let_def split: if_splits)
      qed
    qed
  qed
qed

lemma first_some_find:
  assumes "find P xs = Some x" "\<And>y. \<not> P y \<Longrightarrow> f y = None" "f x = Some t"
  shows "first_some (map f xs) = Some t"
  using assms(1)
proof (induction xs)
  case Nil
  then show ?case by simp
next
  case (Cons y ys)
  show ?case
  proof (cases "P y")
    case True
    with Cons.prems have "x = y" by simp
    then show ?thesis using assms(3) by simp
  next
    case False
    with Cons.prems have "find P ys = Some x" by simp
    from Cons.IH [OF this] show ?thesis using assms(2) [OF False] by simp
  qed
qed

lemma heading_one_title: "heading_title 1 ''# Heading One'' = Some ''Heading One''"
  by code_simp

text \<open>
  Claim C4, as amended.  Let no directive pattern match in the first 3000 characters of
  the document, and let the first level-1 heading line outside fenced code regions, among
  the lines of these 3000 characters, be \<open># Heading One\<close>.  Then the title is
  \<open>Heading One\<close>.  Lines inside fenced regions play no part: they are not among the lines
  the hypothesis speaks of, and the conclusion does not depend on them.
\<close>

theorem first_heading_returned:
  assumes "spec_no_toc (take 3000 text0)"
    and "spec_first_heading_line 1 (take 3000 text0) = Some (n, ''# Heading One'')"
  shows "extract_title_from_md (Some text0) filepath = ''Heading One''"
proof -
  let ?content = "take 3000 text0"
  let ?open = "spec_open_lines False (List.enumerate 1 (split_nl ?content))"
  let ?f = "\<lambda>nl. heading_title 1 (snd nl)"
  have toc: "toc_loop toc_patterns ?content = None"
    using assms(1) unfolding spec_no_toc_def by (rule toc_loop_none)
  have found: "find (\<lambda>nl. rmatch (heading_re 1) (snd nl) \<noteq> None) ?open =
      Some (n, ''# Heading One'')"
    using assms(2) unfolding spec_first_heading_line_def numbered_def .
  have none: "?f y = None" if "\<not> rmatch (heading_re 1) (snd y) \<noteq> None" for y
    using that by (simp add: heading_title_def)
  have hit: "?f (n, ''# Heading One'') = Some ''Heading One''"
    unfolding snd_conv by (rule heading_one_title)
  have "first_some (map ?f ?open) = Some ''Heading One''"
    using found none hit by (rule first_some_find)
  then have "heading_loop 1 False (split_nl ?content) = Some ''Heading One''"
    by (simp only: heading_loop_open [of 1 False "split_nl ?content" 1])
  then show ?thesis
    using toc by (simp add: extract_title_from_md_def Let_def)
qed

theorem first_heading_returned_witness:
  "spec_no_toc (take 3000 fenced_example) \<and>
   spec_first_heading_line 1 (take 3000 fenced_example) = Some (5, ''# Heading One'') \<and>
   extract_title_from_md (Some fenced_example) ''x.md'' = ''Heading One''"
proof -
  have h1: "spec_no_toc (take 3000 fenced_example)"
    by code_simp
  have h2: "spec_first_heading_line 1 (take 3000 fenced_example) = Some (5, ''# Heading One'')"
    by code_simp
  show ?thesis
    using h1 h2 first_heading_returned [OF h1 h2, of "''x.md''"] by simp
qed

lemma re_search_newlines:
  "c \<noteq> newline \<Longrightarrow> re_search (One (Ch c) # q) (replicate n newline) = None"
  by (induction n) (simp_all add: rmatch.simps)

lemma split_nl_newlines: "split_nl (replicate n newline @ s) = replicate n [] @ split_nl s"
  by (induction n) simp_all

lemma startswith_empty: "\<not> startswith (strip []) fence"
  by (simp add: startswith_def strip_def lstrip_def rstrip_def fence_def)

lemma heading_re_empty: "rmatch (heading_re (Suc lv)) [] = None"
  by (simp add: heading_re_def rmatch.simps)

lemma heading_loop_empty_lines:
  "\<forall>l \<in> set ls. l = [] \<Longrightarrow> heading_loop (Suc lv) b ls = None"
proof (induction ls arbitrary: b)
  case Nil
  then show ?case by simp
next
  case (Cons l ls)
  then have "l = []" and "\<forall>l \<in> set ls. l = []" by simp_all
  with Cons.IH show ?case
    by (simp add: startswith_empty heading_re_empty)
qed

lemma body_loop_empty_lines:
  "\<forall>l \<in> set ls. l = [] \<Longrightarrow> body_loop b ls = None"
proof (induction ls arbitrary: b)
  case Nil
  then show ?case by simp
next
  case (Cons l ls)
  then have l: "l = []" and "\<forall>l \<in> set ls. l = []" by simp_all
  with Cons.IH have ih: "body_loop b' ls = None" for b' by simp
  have "strip [] = []" by (simp add: strip_def lstrip_def rstrip_def)
  then show ?case
    using l ih startswith_empty by (simp add: Let_def)
qed

lemma open_lines_plain:
  "\<forall>nl \<in> set nls. snd nl = [] \<Longrightarrow>
   spec_open_lines False (nls @ rest) = nls @ spec_open_lines False rest"
proof (induction nls)
  case Nil
  then show ?case by simp
next
  case (Cons nl nls)
  obtain n l where nl: "nl = (n, l)" by (cases nl)
  with Cons.prems have "l = []" by simp
  then show ?case
    using Cons nl by (simp add: startswith_empty)
qed

lemma find_skip: "find P xs = None \<Longrightarrow> find P (xs @ ys) = find P ys"
  by (induction xs) (simp_all split: if_splits)

lemma late_no_toc: "spec_no_toc (take 3000 late_heading_example)"
proof -
  have "take 3000 late_heading_example = replicate 3000 newline"
    by (simp add: late_heading_example_def)
  moreover have "CHR ''@'' \<noteq> newline" "CHR ''['' \<noteq> newline" "CHR ''<'' \<noteq> newline"
    by (simp_all add: newline_def)
  ultimately show ?thesis
    by (simp add: spec_no_toc_def toc_patterns_def toc_re1_def toc_re2_def toc_re3_def
        toc_re4_def re_search_newlines)
qed

lemma late_first_heading:
  "spec_first_heading_line 1 late_heading_example = Some (3001, ''# Heading One'')"
proof -
  let ?blank = "List.enumerate 1 (replicate 3000 ([] :: string))"
  have one: "split_nl ''# Heading One'' = [''# Heading One'']"
    by code_simp
  have lines: "split_nl late_heading_example = replicate 3000 [] @ [''# Heading One'']"
    by (simp only: late_heading_example_def split_nl_newlines one)
  have num: "numbered (split_nl late_heading_example) = ?blank @ [(3001, ''# Heading One'')]"
    by (simp add: lines numbered_def enumerate_append_eq)
  have blank: "\<forall>nl \<in> set ?blank. snd nl = []"
    by (auto simp: in_set_enumerate_eq)
  have fence: "\<not> startswith (strip ''# Heading One'') fence"
    by code_simp
  have "spec_open_lines False [(3001, ''# Heading One'')] = [(3001, ''# Heading One'')]"
    using fence by simp
  then have opn: "spec_open_lines False (numbered (split_nl late_heading_example)) =
      ?blank @ [(3001, ''# Heading One'')]"
    unfolding num by (simp only: open_lines_plain [OF blank])
  have m: "rmatch (heading_re 1) ''# Heading One'' \<noteq> None"
    by code_simp
  have "find (\<lambda>nl. rmatch (heading_re 1) (snd nl) \<noteq> None) ?blank = None"
    unfolding find_None_iff using blank heading_re_empty [of 0] by auto
  from find_skip [OF this] show ?thesis
    unfolding spec_first_heading_line_def opn using m by simp
qed

lemma late_title: "extract_title_from_md (Some late_heading_example) ''notes.md'' = ''Notes''"
proof -
  have content: "take 3000 late_heading_example = replicate 3000 newline"
    by (simp add: late_heading_example_def)
  have toc: "toc_loop toc_patterns (replicate 3000 newline) = None"
    using late_no_toc unfolding content spec_no_toc_def by (rule toc_loop_none)
  have "split_nl (replicate 3000 newline @ []) = replicate 3000 [] @ split_nl []"
    by (rule split_nl_newlines)
  then have lines: "split_nl (replicate 3000 newline) = replicate 3000 [] @ [[]]"
    by simp
  have empty: "\<forall>l \<in> set (replicate 3000 ([] :: string) @ [[]]). l = []"
    by simp
  have h1: "heading_loop 1 False (replicate 3000 [] @ [[]]) = None"
    using heading_loop_empty_lines [OF empty, of 0 False] by simp
  have h2: "heading_loop 2 False (replicate 3000 [] @ [[]]) = None"
    using heading_loop_empty_lines [OF empty, of 1 False] by (simp add: numeral_2_eq_2)
  have b: "body_loop False (replicate 3000 [] @ [[]]) = None"
    using empty by (rule body_loop_empty_lines)
  have name: "pretty_name ''notes.md'' = ''Notes''"
    by code_simp
  show ?thesis
    unfolding extract_title_from_md_def option.case Let_def content toc lines h1 h2 b
    by (rule name)
qed

text \<open>
  The claim as stated fails for a heading that stands behind the first 3000 characters:
  the document has no directive there and its first level-1 heading is
  \<open># Heading One\<close>, yet the title is made from the file name.
\<close>

theorem late_heading_missed:
  "spec_no_toc (take 3000 late_heading_example) \<and>
   spec_first_heading_line 1 late_heading_example = Some (3001, ''# Heading One'') \<and>
   extract_title_from_md (Some late_heading_example) ''notes.md'' = ''Notes''"
  using late_no_toc late_first_heading late_title by blast

end
